theory Spec2Isabelle
  imports Complex_Main "HOL-Library.List_Lexorder" "HOL-Library.Char_ord"
begin

section \<open>The two tables and the in-memory event list\<close>

text \<open>
  \<^verbatim>\<open>habit_logs\<close> (app.py, lines 78-87) is a table with an \<^verbatim>\<open>INTEGER PRIMARY KEY
  AUTOINCREMENT\<close> and five more columns; \<^verbatim>\<open>daily_agg\<close> (lines 90-99) holds two counters
  per \<^verbatim>\<open>(habit_id, day)\<close>, a pair that is \<^verbatim>\<open>UNIQUE\<close>.  A row of the log is a record, the
  log is the list of its rows in rowid order (the order of a table scan), and the rollup
  is a map from its unique key to the two counters.  The counters are SQL integers, so
  they are \<open>int\<close> here: that they never go below zero is a property to prove, not a
  type.  Timestamps and days are the TEXT values the code stores, compared as SQLite
  compares TEXT (byte by byte, a proper prefix first).
\<close>

record habit_log =
  log_id :: nat
  user_uuid :: string
  habit_id :: int
  event_type :: string
  timestamp :: string
  source :: string

record daily_bucket =
  completions :: int
  skips :: int

text \<open>The dictionary appended to \<^verbatim>\<open>app.config["events"]\<close> (lines 205-212).\<close>

record event_record =
  ev_habit_id :: int
  ev_event_type :: string
  ev_source :: string
  ev_timestamp :: string

text \<open>
  The state: the in-memory list, the log with the largest rowid SQLite has handed out
  for it (the \<^verbatim>\<open>sqlite_sequence\<close> entry that \<^verbatim>\<open>AUTOINCREMENT\<close> keeps), and the rollup.
\<close>

record app_state =
  config_events :: "event_record list"
  habit_logs :: "habit_log list"
  habit_logs_seq :: nat
  daily_agg :: "int \<times> string \<rightharpoonup> daily_bucket"

definition empty_state :: app_state where
  "empty_state =
     \<lparr>config_events = [], habit_logs = [], habit_logs_seq = 0, daily_agg = Map.empty\<rparr>"

section \<open>Requests and replies\<close>

text \<open>
  A JSON body read with \<^verbatim>\<open>data.get\<close>: a key that is missing reads as \<open>None\<close>.  A reply
  is the HTTP status with the JSON object sent.
\<close>

record log_request =
  req_habit_id :: "int option"
  req_event_type :: "string option"
  req_source :: "string option"
  req_user_uuid :: "string option"

datatype body =
  Error string
  | EventLogged event_record
  | Status string

type_synonym response = "nat \<times> body"

section \<open>The SQL statements\<close>

text \<open>
  \<^verbatim>\<open>INSERT INTO habit_logs\<close>: the new rowid is one more than the largest rowid ever
  used, and the row goes to the end of the table.
\<close>

definition next_rowid :: "app_state \<Rightarrow> nat" where
  "next_rowid s = Suc (fold max (map log_id (habit_logs s)) (habit_logs_seq s))"

definition insert_habit_log ::
  "string \<Rightarrow> int \<Rightarrow> string \<Rightarrow> string \<Rightarrow> string \<Rightarrow> app_state \<Rightarrow> app_state" where
  "insert_habit_log uu hid et ts src s =
     s\<lparr>habit_logs := habit_logs s @
          [\<lparr>log_id = next_rowid s, user_uuid = uu, habit_id = hid, event_type = et,
            timestamp = ts, source = src\<rparr>],
       habit_logs_seq := next_rowid s\<rparr>"

text \<open>\<^verbatim>\<open>INSERT OR IGNORE INTO daily_agg (habit_id, day, completions, skips) VALUES (?,?,0,0)\<close>\<close>

definition insert_or_ignore_daily_agg :: "int \<Rightarrow> string \<Rightarrow> app_state \<Rightarrow> app_state" where
  "insert_or_ignore_daily_agg hid day s =
     (case daily_agg s (hid, day) of
        Some b \<Rightarrow> s
      | None \<Rightarrow> s\<lparr>daily_agg := (daily_agg s)((hid, day) \<mapsto> \<lparr>completions = 0, skips = 0\<rparr>)\<rparr>)"

text \<open>
  \<^verbatim>\<open>UPDATE daily_agg SET ... WHERE habit_id = ? AND day = ?\<close>: the one row with that key
  is rewritten; with no such row the statement changes nothing.
\<close>

definition update_daily_agg ::
  "(daily_bucket \<Rightarrow> daily_bucket) \<Rightarrow> int \<Rightarrow> string \<Rightarrow> app_state \<Rightarrow> app_state" where
  "update_daily_agg f hid day s =
     (case daily_agg s (hid, day) of
        None \<Rightarrow> s
      | Some b \<Rightarrow> s\<lparr>daily_agg := (daily_agg s)((hid, day) \<mapsto> f b)\<rparr>)"

text \<open>\<^verbatim>\<open>CASE WHEN c > 0 THEN c - 1 ELSE 0 END\<close> (lines 269 and 275).\<close>

definition dec_floor :: "int \<Rightarrow> int" where
  "dec_floor c = (if c > 0 then c - 1 else 0)"

text \<open>\<^verbatim>\<open>DELETE FROM habit_logs WHERE id = ?\<close>\<close>

definition delete_habit_log :: "nat \<Rightarrow> app_state \<Rightarrow> app_state" where
  "delete_habit_log event_id s =
     s\<lparr>habit_logs := filter (\<lambda>r. log_id r \<noteq> event_id) (habit_logs s)\<rparr>"

text \<open>
  \<^verbatim>\<open>ORDER BY timestamp DESC LIMIT 1\<close> over the rows that passed the \<^verbatim>\<open>WHERE\<close> clause,
  given in scan order.  The statement names no second sort key.  SQLite sorts such a
  query in a temporary b-tree whose key is the sort column followed by the sequence number
  of the scan, so among rows with equal timestamps the one scanned first comes first: a
  later row replaces the candidate only when its timestamp is strictly greater.
\<close>

fun order_by_timestamp_desc_limit_1 :: "habit_log list \<Rightarrow> habit_log option" where
  "order_by_timestamp_desc_limit_1 [] = None"
| "order_by_timestamp_desc_limit_1 (r # rs) =
     (case order_by_timestamp_desc_limit_1 rs of
        None \<Rightarrow> Some r
      | Some r' \<Rightarrow> if timestamp r < timestamp r' then Some r' else Some r)"

section \<open>The routes\<close>

text \<open>\<^verbatim>\<open>timestamp.split("T")[0]\<close>: the text before the first \<^verbatim>\<open>T\<close>, all of it when there is none.\<close>

definition day_of :: "string \<Rightarrow> string" where
  "day_of ts = takeWhile (\<lambda>c. c \<noteq> CHR ''T'') ts"

text \<open>
  The \<^verbatim>\<open>sqlite3\<close> module binds a Python integer only when it fits SQLite's 64-bit
  signed INTEGER; for any other integer \<^verbatim>\<open>execute\<close> raises \<^verbatim>\<open>OverflowError\<close> before the
  statement runs.
\<close>

definition sqlite_int64 :: "int \<Rightarrow> bool" where
  "sqlite_int64 n \<longleftrightarrow> - (2 ^ 63) \<le> n \<and> n < 2 ^ 63"

text \<open>
  \<^verbatim>\<open>log_event\<close> (lines 188-235).  The two values the route takes from its environment
  are arguments: \<open>utcnow_iso\<close> is \<^verbatim>\<open>datetime.datetime.utcnow().isoformat()\<close> and \<open>uuid4\<close>
  is \<^verbatim>\<open>str(uuid.uuid4())\<close>.  Python's \<^verbatim>\<open>not x\<close> holds of \<^verbatim>\<open>None\<close>, of \<open>0\<close> and of the
  empty string.  The statements between \<^verbatim>\<open>get_db_conn()\<close> and \<^verbatim>\<open>conn.commit()\<close> are one
  transaction inside \<^verbatim>\<open>try\<close>.  When the first \<^verbatim>\<open>execute\<close> raises because \<^verbatim>\<open>habit_id\<close>
  does not fit 64 bits, the \<^verbatim>\<open>except\<close> of lines 232-233 logs the error, nothing is
  committed, and the route still answers 201 with the event it appended to the in-memory
  list.  Faults of the storage itself (a locked file, a full disk) are not inputs of the
  route and are outside the model.
\<close>

definition log_event ::
  "log_request \<Rightarrow> string \<Rightarrow> string \<Rightarrow> app_state \<Rightarrow> response \<times> app_state" where
  "log_event data utcnow_iso uuid4 s =
     (case req_habit_id data of
        None \<Rightarrow> ((400, Error ''Missing habit_id or event_type''), s)
      | Some hid \<Rightarrow>
     (case req_event_type data of
        None \<Rightarrow> ((400, Error ''Missing habit_id or event_type''), s)
      | Some et \<Rightarrow>
        if hid = 0 \<or> et = [] then ((400, Error ''Missing habit_id or event_type''), s)
        else
          let src = (case req_source data of None \<Rightarrow> ''unknown'' | Some x \<Rightarrow> x);
              ts = utcnow_iso;
              event = \<lparr>ev_habit_id = hid, ev_event_type = et, ev_source = src,
                       ev_timestamp = ts\<rparr>;
              s1 = s\<lparr>config_events := config_events s @ [event]\<rparr>;
              uu = (case req_user_uuid data of
                      None \<Rightarrow> uuid4
                    | Some u \<Rightarrow> if u = [] then uuid4 else u)
          in if \<not> sqlite_int64 hid then ((201, EventLogged event), s1)
             else
               let s2 = insert_habit_log uu hid et ts src s1;
                   day = day_of ts;
                   s3 = insert_or_ignore_daily_agg hid day s2;
                   s4 = (if et = ''complete''
                         then update_daily_agg
                                (\<lambda>b. b\<lparr>completions := completions b + 1\<rparr>) hid day s3
                         else if et = ''skip''
                         then update_daily_agg (\<lambda>b. b\<lparr>skips := skips b + 1\<rparr>) hid day s3
                         else s3)
               in ((201, EventLogged event), s4)))"

text \<open>
  \<^verbatim>\<open>undo_last_event\<close> (lines 238-281).  \<open>cutoff\<close> is the text computed at line 250,
  \<^verbatim>\<open>(utcnow() - timedelta(seconds=window_seconds)).isoformat()\<close>; the \<^verbatim>\<open>WHERE\<close> clause
  compares it with the stored timestamps as TEXT.  Nothing catches what the \<^verbatim>\<open>SELECT\<close> of
  line 252 raises: for a \<^verbatim>\<open>habit_id\<close> that does not fit 64 bits the request ends in
  HTTP 500 with the tables as they were.
\<close>

definition undo_last_event ::
  "int option \<Rightarrow> string \<Rightarrow> app_state \<Rightarrow> response \<times> app_state" where
  "undo_last_event req_hid cutoff s =
     (case req_hid of
        None \<Rightarrow> ((400, Error ''habit_id required''), s)
      | Some hid \<Rightarrow>
        if hid = 0 then ((400, Error ''habit_id required''), s)
        else if \<not> sqlite_int64 hid then ((500, Error ''Internal Server Error''), s)
        else
          (case order_by_timestamp_desc_limit_1
                  (filter (\<lambda>r. habit_id r = hid \<and> cutoff \<le> timestamp r) (habit_logs s)) of
             None \<Rightarrow> ((404, Status ''no_recent_event''), s)
           | Some row \<Rightarrow>
               let event_id = log_id row;
                   et = event_type row;
                   ts = timestamp row;
                   day = day_of ts;
                   s1 = delete_habit_log event_id s;
                   s2 = (if et = ''complete''
                         then update_daily_agg
                                (\<lambda>b. b\<lparr>completions := dec_floor (completions b)\<rparr>) hid day s1
                         else if et = ''skip''
                         then update_daily_agg (\<lambda>b. b\<lparr>skips := dec_floor (skips b)\<rparr>) hid day s1
                         else s1)
               in ((200, Status ''undone''), s2)))"

section \<open>Sequences of calls, and what the rollup is measured against\<close>

datatype op =
  Record log_request string string
  | Undo "int option" string

fun apply_op :: "op \<Rightarrow> app_state \<Rightarrow> app_state" where
  "apply_op (Record data utcnow_iso uuid4) s = snd (log_event data utcnow_iso uuid4 s)"
| "apply_op (Undo req_hid cutoff) s = snd (undo_last_event req_hid cutoff s)"

definition run :: "op list \<Rightarrow> app_state \<Rightarrow> app_state" where
  "run ops s = fold apply_op ops s"

text \<open>The rows of the log of one habit, one event type and one day.\<close>

definition count_events :: "string \<Rightarrow> int \<Rightarrow> string \<Rightarrow> app_state \<Rightarrow> nat" where
  "count_events et hid day s =
     length (filter (\<lambda>r. habit_id r = hid \<and> event_type r = et \<and> day_of (timestamp r) = day)
               (habit_logs s))"

text \<open>A counter of the rollup as a query reads it; a key with no row counts nothing.\<close>

definition counter :: "(daily_bucket \<Rightarrow> int) \<Rightarrow> int \<Rightarrow> string \<Rightarrow> app_state \<Rightarrow> int" where
  "counter sel hid day s = (case daily_agg s (hid, day) of None \<Rightarrow> 0 | Some b \<Rightarrow> sel b)"

definition agg_consistent :: "app_state \<Rightarrow> bool" where
  "agg_consistent s \<longleftrightarrow>
     (\<forall>hid day.
        counter completions hid day s = int (count_events ''complete'' hid day s) \<and>
        counter skips hid day s = int (count_events ''skip'' hid day s))"

text \<open>The primary key: no two rows of the log share a rowid.\<close>

definition rowids_distinct :: "app_state \<Rightarrow> bool" where
  "rowids_distinct s \<longleftrightarrow> distinct (map log_id (habit_logs s))"

definition agg_nonneg :: "app_state \<Rightarrow> bool" where
  "agg_nonneg s \<longleftrightarrow>
     (\<forall>k b. daily_agg s k = Some b \<longrightarrow> 0 \<le> completions b \<and> 0 \<le> skips b)"

text \<open>The bucket of a key as \<^verbatim>\<open>INSERT OR IGNORE\<close> leaves it: the row, or a new row of zeros.\<close>

definition bucket_or_zero :: "app_state \<Rightarrow> int \<Rightarrow> string \<Rightarrow> daily_bucket" where
  "bucket_or_zero s hid day =
     (case daily_agg s (hid, day) of None \<Rightarrow> \<lparr>completions = 0, skips = 0\<rparr> | Some b \<Rightarrow> b)"

section \<open>The status route\<close>

text \<open>
  SQLite's \<^verbatim>\<open>LIKE\<close>: \<^verbatim>\<open>%\<close> stands for any run of characters, \<^verbatim>\<open>_\<close> for any one
  character, and every other character of the pattern for itself, ASCII letters without
  regard to case.
\<close>

definition ascii_lower :: "char \<Rightarrow> char" where
  "ascii_lower c =
     (if CHR ''A'' \<le> c \<and> c \<le> CHR ''Z'' then char_of (of_char c + (32::nat)) else c)"

fun sql_like :: "string \<Rightarrow> string \<Rightarrow> bool" where
  "sql_like [] s = (s = [])"
| "sql_like (p # ps) [] = (p = CHR ''%'' \<and> sql_like ps [])"
| "sql_like (p # ps) (c # cs) =
     (if p = CHR ''%'' then sql_like ps (c # cs) \<or> sql_like (p # ps) cs
      else (p = CHR ''_'' \<or> ascii_lower p = ascii_lower c) \<and> sql_like ps cs)"

text \<open>
  \<^verbatim>\<open>get_habit_status_today\<close> (lines 285-300).  \<open>today\<close> is
  \<^verbatim>\<open>datetime.date.today().isoformat()\<close>, a text of digits and hyphens.  The route's
  \<^verbatim>\<open><int:habit_id>\<close> matches unsigned digits of any length, so the identifier is never
  negative; one that does not fit 64 bits makes the query raise, and the request ends
  in HTTP 500.
\<close>

definition get_habit_status_today :: "int \<Rightarrow> string \<Rightarrow> app_state \<Rightarrow> response" where
  "get_habit_status_today hid today s =
     (if \<not> sqlite_int64 hid then (500, Error ''Internal Server Error'')
      else
        (case order_by_timestamp_desc_limit_1
                (filter (\<lambda>r. habit_id r = hid \<and> sql_like (today @ ''%'') (timestamp r))
                   (habit_logs s)) of
           None \<Rightarrow> (200, Status ''none'')
         | Some row \<Rightarrow> (200, Status (event_type row))))"

text \<open>The table in scan order: rowids grow along the list.\<close>

definition rowid_order :: "app_state \<Rightarrow> bool" where
  "rowid_order s \<longleftrightarrow> sorted_wrt (<) (map log_id (habit_logs s))"

section \<open>Streaks\<close>

text \<open>
  The two local functions of \<^verbatim>\<open>analytics_summary\<close> (lines 542-568) work on
  \<^verbatim>\<open>datetime.date\<close> values and on the day texts of \<^verbatim>\<open>daily_agg\<close>.  A date is its year,
  month and day; adding or subtracting \<^verbatim>\<open>timedelta(days=1)\<close> steps to the neighbouring
  day and raises \<^verbatim>\<open>OverflowError\<close> outside the years 1 to 9999; \<^verbatim>\<open>isoformat\<close> prints
  \<^verbatim>\<open>YYYY-MM-DD\<close>; \<^verbatim>\<open>fromisoformat\<close> reads that form back and raises \<^verbatim>\<open>ValueError\<close> on
  anything else.
\<close>

datatype py_error = ValueError | OverflowError

datatype date = Date (year_of: nat) (month_of: nat) (day_of_month: nat)

definition is_leap :: "nat \<Rightarrow> bool" where
  "is_leap y \<longleftrightarrow> y mod 4 = 0 \<and> (y mod 100 \<noteq> 0 \<or> y mod 400 = 0)"

definition days_in_month :: "nat \<Rightarrow> nat \<Rightarrow> nat" where
  "days_in_month y m =
     (if m = 2 then (if is_leap y then 29 else 28)
      else if m = 4 \<or> m = 6 \<or> m = 9 \<or> m = 11 then 30 else 31)"

fun valid_date :: "date \<Rightarrow> bool" where
  "valid_date (Date y m d) \<longleftrightarrow>
     1 \<le> y \<and> y \<le> 9999 \<and> 1 \<le> m \<and> m \<le> 12 \<and> 1 \<le> d \<and> d \<le> days_in_month y m"

fun date_minus_day :: "date \<Rightarrow> py_error + date" where
  "date_minus_day (Date y m d) =
     (if 1 < d then Inr (Date y m (d - 1))
      else if 1 < m then Inr (Date y (m - 1) (days_in_month y (m - 1)))
      else if 1 < y then Inr (Date (y - 1) 12 31)
      else Inl OverflowError)"

fun date_plus_day :: "date \<Rightarrow> py_error + date" where
  "date_plus_day (Date y m d) =
     (if d < days_in_month y m then Inr (Date y m (d + 1))
      else if m < 12 then Inr (Date y (m + 1) 1)
      else if y < 9999 then Inr (Date (y + 1) 1 1)
      else Inl OverflowError)"

definition digit_char :: "nat \<Rightarrow> char" where
  "digit_char n = ''0123456789'' ! (n mod 10)"

definition digit_val :: "char \<Rightarrow> nat option" where
  "digit_val c = (if CHR ''0'' \<le> c \<and> c \<le> CHR ''9'' then Some (of_char c - 48) else None)"

definition two_digits :: "nat \<Rightarrow> string" where
  "two_digits n = [digit_char (n div 10), digit_char n]"

fun isoformat :: "date \<Rightarrow> string" where
  "isoformat (Date y m d) =
     two_digits (y div 100) @ two_digits (y mod 100) @ ''-'' @ two_digits m @ ''-'' @ two_digits d"

fun parse_digits :: "nat \<Rightarrow> string \<Rightarrow> nat option" where
  "parse_digits acc [] = Some acc"
| "parse_digits acc (c # cs) =
     (case digit_val c of None \<Rightarrow> None | Some v \<Rightarrow> parse_digits (10 * acc + v) cs)"

definition fromisoformat :: "string \<Rightarrow> py_error + date" where
  "fromisoformat s =
     (if length s = 10 \<and> s ! 4 = CHR ''-'' \<and> s ! 7 = CHR ''-''
      then (case (parse_digits 0 (take 4 s), parse_digits 0 (take 2 (drop 5 s)),
                  parse_digits 0 (drop 8 s)) of
              (Some y, Some m, Some d) \<Rightarrow>
                if valid_date (Date y m d) then Inr (Date y m d) else Inl ValueError
            | _ \<Rightarrow> Inl ValueError)
      else Inl ValueError)"

text \<open>
  \<^verbatim>\<open>calculate_current_streak\<close> (lines 542-552); \<open>today\<close>, a variable of the enclosing
  function in the source, is an argument here.  The \<^verbatim>\<open>while\<close> loop is \<open>streak_loop\<close>.
\<close>

function streak_loop :: "string list \<Rightarrow> date \<Rightarrow> nat \<Rightarrow> py_error + nat" where
  "streak_loop date_list current streak =
     (if isoformat current \<in> set date_list
      then (case date_minus_day current of
              Inl e \<Rightarrow> Inl e
            | Inr c \<Rightarrow> streak_loop date_list c (streak + 1))
      else Inr streak)"
  by pat_completeness auto
termination
proof (relation "measures [\<lambda>(ds, c, n). year_of c, \<lambda>(ds, c, n). month_of c,
                          \<lambda>(ds, c, n). day_of_month c]", goal_cases)
  case 1
  then show ?case by simp
next
  case (2 date_list current streak c)
  then show ?case by (cases current) (auto split: if_splits)
qed

definition calculate_current_streak :: "date \<Rightarrow> string list \<Rightarrow> py_error + nat" where
  "calculate_current_streak today date_list =
     (if date_list = [] then Inr 0 else streak_loop date_list today 0)"

text \<open>
  \<^verbatim>\<open>longest_consecutive\<close> (lines 554-568): the inner \<^verbatim>\<open>while\<close> loop is \<open>run_loop\<close>, the
  \<^verbatim>\<open>for\<close> loop over the list is \<open>longest_loop\<close>.
\<close>

function run_loop :: "string list \<Rightarrow> date \<Rightarrow> nat \<Rightarrow> py_error + nat" where
  "run_loop s nxt len =
     (if isoformat nxt \<in> set s
      then (case date_plus_day nxt of
              Inl e \<Rightarrow> Inl e
            | Inr n \<Rightarrow> run_loop s n (len + 1))
      else Inr len)"
  by pat_completeness auto
termination
proof (relation "measures [\<lambda>(s, c, n). 9999 - year_of c, \<lambda>(s, c, n). 12 - month_of c,
                          \<lambda>(s, c, n). days_in_month (year_of c) (month_of c) - day_of_month c]",
    goal_cases)
  case 1
  then show ?case by simp
next
  case (2 s nxt len n)
  then show ?case by (cases nxt) (auto split: if_splits)
qed

fun longest_loop :: "string list \<Rightarrow> string list \<Rightarrow> nat \<Rightarrow> py_error + nat" where
  "longest_loop s [] longest = Inr longest"
| "longest_loop s (d # ds) longest =
     (case fromisoformat d of
        Inl e \<Rightarrow> Inl e
      | Inr curd \<Rightarrow>
          (case date_plus_day curd of
             Inl e \<Rightarrow> Inl e
           | Inr nxt \<Rightarrow>
               (case run_loop s nxt 1 of
                  Inl e \<Rightarrow> Inl e
                | Inr len \<Rightarrow> longest_loop s ds (if longest < len then len else longest))))"

definition longest_consecutive :: "string list \<Rightarrow> py_error + nat" where
  "longest_consecutive date_list =
     (if date_list = [] then Inr 0 else longest_loop date_list date_list 0)"


text \<open>
  The day \<open>k\<close> days before and after a date, and a run: \<open>k\<close> consecutive days from
  \<open>c\<close> on, each with its text in the list.
\<close>

fun days_back :: "date \<Rightarrow> nat \<Rightarrow> py_error + date" where
  "days_back c 0 = Inr c"
| "days_back c (Suc k) =
     (case date_minus_day c of Inl e \<Rightarrow> Inl e | Inr c' \<Rightarrow> days_back c' k)"

fun days_on :: "date \<Rightarrow> nat \<Rightarrow> py_error + date" where
  "days_on c 0 = Inr c"
| "days_on c (Suc k) =
     (case date_plus_day c of Inl e \<Rightarrow> Inl e | Inr c' \<Rightarrow> days_on c' k)"

definition run_at :: "string list \<Rightarrow> date \<Rightarrow> nat \<Rightarrow> bool" where
  "run_at ds c k \<longleftrightarrow> (\<forall>j<k. \<exists>c'. days_on c j = Inr c' \<and> isoformat c' \<in> set ds)"

text \<open>The day list of the specification's example, and one across a leap day.\<close>

definition spec_days :: "string list" where
  "spec_days = [''2024-01-01'', ''2024-01-02'', ''2024-01-03'', ''2024-01-05'']"

definition leap_days :: "string list" where
  "leap_days = [''2024-03-01'', ''2024-02-28'', ''2023-12-31'', ''2024-02-29'', ''2024-01-01'']"

lemmas iso_simps = two_digits_def digit_char_def days_in_month_def is_leap_def

lemmas date_simps = iso_simps fromisoformat_def digit_val_def less_eq_char_def

section \<open>The completion rate\<close>

text \<open>
  Line 509 is \<^verbatim>\<open>round((completes / total_events * 100), 1) if total_events > 0 else 0\<close>:
  a true division of two integers, a multiplication by 100 and a \<^verbatim>\<open>round\<close> to one
  decimal, all in binary64.  A double is the rational number it denotes.  \<open>fl\<close> rounds
  a non-negative rational to the nearest number with a 53-bit significand, ties to the
  even significand; the values of this computation are 0 or lie between \<open>2 powi (-40)\<close> and 128,
  inside the normal range.  Division of integers and multiplication of doubles are
  correctly rounded, so each is \<open>fl\<close> of the exact result.  \<^verbatim>\<open>round(x, 1)\<close> rounds the exact
  value of \<open>x\<close> to one decimal, ties to even, and returns the double nearest to that
  decimal.
\<close>

text \<open>\<^verbatim>\<open>int.bit_length\<close>: the number of binary digits of a natural number.\<close>

fun bit_length :: "nat \<Rightarrow> nat" where
  "bit_length n = (if n = 0 then 0 else Suc (bit_length (n div 2)))"

declare bit_length.simps [simp del]

text \<open>The binary exponent of a positive rational: the \<open>e\<close> with \<open>2 powi e \<le> x < 2 powi (e + 1)\<close>.\<close>

definition ilog2 :: "rat \<Rightarrow> int" where
  "ilog2 x =
     (if 1 \<le> x then int (bit_length (nat \<lfloor>x\<rfloor>)) - 1
      else - int (bit_length (nat \<lceil>1 / x\<rceil> - 1)))"

definition round_half_even :: "rat \<Rightarrow> int" where
  "round_half_even y =
     (let f = \<lfloor>y\<rfloor>; r = y - of_int f
      in if r < 1 / 2 then f else if 1 / 2 < r then f + 1 else if even f then f else f + 1)"

definition fl :: "rat \<Rightarrow> rat" where
  "fl x =
     (if x = 0 then 0
      else of_int (round_half_even (x / 2 powi (ilog2 x - 52))) * 2 powi (ilog2 x - 52))"

definition py_round1 :: "rat \<Rightarrow> rat" where
  "py_round1 x = fl (of_int (round_half_even (x * 10)) / 10)"

definition completion_rate :: "nat \<Rightarrow> nat \<Rightarrow> rat" where
  "completion_rate n_completes n_skips =
     (let total_events = n_completes + n_skips
      in if 0 < total_events
         then py_round1 (fl (fl (of_nat n_completes / of_nat total_events) * 100))
         else 0)"

text \<open>
  SQLite's \<^verbatim>\<open>date()\<close> on the timestamps of \<^verbatim>\<open>habit_logs\<close>.  The only statement that
  writes the column is the \<^verbatim>\<open>INSERT\<close> of \<^verbatim>\<open>log_event\<close>, and what it writes is
  \<^verbatim>\<open>datetime.utcnow().isoformat()\<close>: \<^verbatim>\<open>YYYY-MM-DDTHH:MM:SS\<close>, followed by a point and
  six digits of microseconds when these are not zero.  \<open>parse_timestamp\<close> reads such a
  text; any other text reads as \<open>None\<close> (SQLite accepts a few more spellings of a
  date and time, which no route stores).
\<close>

datatype datetime =
  Datetime (dt_date: date) (dt_hour: nat) (dt_minute: nat) (dt_second: nat) (dt_microsecond: nat)

definition parse_timestamp :: "string \<Rightarrow> datetime option" where
  "parse_timestamp ts =
     (if (length ts = 19 \<or> (length ts = 26 \<and> ts ! 19 = CHR ''.'')) \<and>
         ts ! 10 = CHR ''T'' \<and> ts ! 13 = CHR '':'' \<and> ts ! 16 = CHR '':''
      then (case fromisoformat (take 10 ts) of
              Inl e \<Rightarrow> None
            | Inr d \<Rightarrow>
            (case parse_digits 0 (take 2 (drop 11 ts)) of
              None \<Rightarrow> None
            | Some h \<Rightarrow>
            (case parse_digits 0 (take 2 (drop 14 ts)) of
              None \<Rightarrow> None
            | Some mi \<Rightarrow>
            (case parse_digits 0 (take 2 (drop 17 ts)) of
              None \<Rightarrow> None
            | Some sec \<Rightarrow>
            (case parse_digits 0 (drop 20 ts) of
              None \<Rightarrow> None
            | Some us \<Rightarrow>
                if h < 24 \<and> mi < 60 \<and> sec < 60 then Some (Datetime d h mi sec us)
                else None)))))
      else None)"

text \<open>
  SQLite (version 3.46) keeps the year, month and day it parsed when the day of the month
  is at most 28.  For a later day it converts to a Julian day number in milliseconds,
  rounding the seconds to the nearest millisecond, and back: a time in the last half
  millisecond of the day, 23:59:59.999500 or later, comes back as the next day, and
  as NULL when there is no next day (after 9999-12-31).  Earlier versions of SQLite
  truncate instead, and give the day as written for every timestamp.
\<close>

definition rounds_up :: "datetime \<Rightarrow> bool" where
  "rounds_up t \<longleftrightarrow>
     28 < day_of_month (dt_date t) \<and> dt_hour t = 23 \<and> dt_minute t = 59 \<and> dt_second t = 59 \<and>
     999500 \<le> dt_microsecond t"

definition sql_date :: "string \<Rightarrow> string option" where
  "sql_date ts =
     (case parse_timestamp ts of
        None \<Rightarrow> None
      | Some t \<Rightarrow>
          if rounds_up t
          then (case date_plus_day (dt_date t) of
                  Inl e \<Rightarrow> None
                | Inr d \<Rightarrow> Some (isoformat d))
          else Some (isoformat (dt_date t)))"

text \<open>
  A timestamp of the stored form that is not in the last half millisecond of a day after
  the 28th: one whose \<^verbatim>\<open>date()\<close> does not depend on the rounding.
\<close>

definition exact_timestamp :: "string \<Rightarrow> bool" where
  "exact_timestamp ts \<longleftrightarrow>
     (case parse_timestamp ts of None \<Rightarrow> False | Some t \<Rightarrow> \<not> rounds_up t)"

text \<open>
  The part of \<^verbatim>\<open>analytics_summary\<close> that gives \<^verbatim>\<open>completion_rate_30d\<close> (lines 474 and
  497-509).  The \<^verbatim>\<open>WHERE\<close> clause compares \<^verbatim>\<open>date(timestamp)\<close> as TEXT with the ISO
  text of the day 29 days before \<open>today\<close>; a row whose date is NULL fails the
  comparison.
\<close>

definition completion_rate_30d :: "date \<Rightarrow> app_state \<Rightarrow> py_error + rat" where
  "completion_rate_30d today s =
     (case days_back today 29 of
        Inl e \<Rightarrow> Inl e
      | Inr d \<Rightarrow>
          let thirty_days_ago = isoformat d;
              rows = filter (\<lambda>r. case sql_date (timestamp r) of
                                   None \<Rightarrow> False
                                 | Some day \<Rightarrow> thirty_days_ago \<le> day) (habit_logs s);
              n_completes = length (filter (\<lambda>r. event_type r = ''complete'') rows);
              n_skips = length (filter (\<lambda>r. event_type r = ''skip'') rows)
          in Inr (completion_rate n_completes n_skips))"
section \<open>Concrete requests and states\<close>

definition request :: "int \<Rightarrow> string \<Rightarrow> log_request" where
  "request hid et =
     \<lparr>req_habit_id = Some hid, req_event_type = Some et, req_source = None,
      req_user_uuid = None\<rparr>"

definition sample_ops :: "op list" where
  "sample_ops =
     [Record (request 1 ''complete'') ''2024-01-05T10:00:00'' ''u1'',
      Record (request 1 ''skip'') ''2024-01-05T10:00:07.120000'' ''u2'',
      Undo (Some 1) ''2024-01-05T09:59:30'',
      Record (request 1 ''complete'') ''2024-01-06T08:00:00'' ''u3'']"

text \<open>A state whose rollup lost a count: one \<^verbatim>\<open>complete\<close> row, and a bucket of zeros.\<close>

definition drifted_state :: app_state where
  "drifted_state =
     \<lparr>config_events = [],
      habit_logs = [\<lparr>log_id = 1, user_uuid = ''u1'', habit_id = 1, event_type = ''complete'',
                     timestamp = ''2024-01-05T10:00:00'', source = ''unknown''\<rparr>],
      habit_logs_seq = 1,
      daily_agg = [(1, ''2024-01-05'') \<mapsto> \<lparr>completions = 0, skips = 0\<rparr>]\<rparr>"

text \<open>A state the calls can reach: four rows, two habits, two days.\<close>

definition busy_state :: app_state where
  "busy_state =
     \<lparr>config_events = [],
      habit_logs =
        [\<lparr>log_id = 1, user_uuid = ''u1'', habit_id = 1, event_type = ''complete'',
          timestamp = ''2024-01-04T23:00:00'', source = ''app''\<rparr>,
         \<lparr>log_id = 2, user_uuid = ''u1'', habit_id = 1, event_type = ''complete'',
          timestamp = ''2024-01-05T10:00:00'', source = ''app''\<rparr>,
         \<lparr>log_id = 3, user_uuid = ''u1'', habit_id = 1, event_type = ''skip'',
          timestamp = ''2024-01-05T10:00:20'', source = ''app''\<rparr>,
         \<lparr>log_id = 4, user_uuid = ''u1'', habit_id = 2, event_type = ''complete'',
          timestamp = ''2024-01-05T10:00:40'', source = ''app''\<rparr>],
      habit_logs_seq = 4,
      daily_agg =
        [(1, ''2024-01-04'') \<mapsto> \<lparr>completions = 1, skips = 0\<rparr>,
         (1, ''2024-01-05'') \<mapsto> \<lparr>completions = 1, skips = 1\<rparr>,
         (2, ''2024-01-05'') \<mapsto> \<lparr>completions = 1, skips = 0\<rparr>]\<rparr>"

text \<open>Two rows of one habit with the same timestamp.\<close>

definition tie_state :: app_state where
  "tie_state =
     \<lparr>config_events = [],
      habit_logs =
        [\<lparr>log_id = 1, user_uuid = ''u1'', habit_id = 1, event_type = ''complete'',
          timestamp = ''2024-01-05T10:00:00'', source = ''app''\<rparr>,
         \<lparr>log_id = 2, user_uuid = ''u1'', habit_id = 1, event_type = ''skip'',
          timestamp = ''2024-01-05T10:00:00'', source = ''app''\<rparr>],
      habit_logs_seq = 2,
      daily_agg = [(1, ''2024-01-05'') \<mapsto> \<lparr>completions = 1, skips = 1\<rparr>]\<rparr>"


text \<open>One \<^verbatim>\<open>skip\<close> row of habit 1, counted in the rollup.\<close>

definition skipped_state :: app_state where
  "skipped_state =
     \<lparr>config_events = [],
      habit_logs = [\<lparr>log_id = 1, user_uuid = ''u1'', habit_id = 1, event_type = ''skip'',
                     timestamp = ''2024-01-05T10:00:00'', source = ''app''\<rparr>],
      habit_logs_seq = 1,
      daily_agg = [(1, ''2024-01-05'') \<mapsto> \<lparr>completions = 0, skips = 1\<rparr>]\<rparr>"

text \<open>An empty log beside a bucket whose \<^verbatim>\<open>completions\<close> column holds \<open>-1\<close>.\<close>

definition negative_state :: app_state where
  "negative_state =
     empty_state\<lparr>daily_agg := [(1, ''2024-01-05'') \<mapsto> \<lparr>completions = - 1, skips = 0\<rparr>]\<rparr>"

lemmas like_simps = ascii_lower_def less_eq_char_def

text \<open>
  A month of one habit: a completion on the last day of 2023, then seven completions and
  three skips from 2024-01-01 on.
\<close>

definition log_row :: "nat \<Rightarrow> string \<Rightarrow> string \<Rightarrow> habit_log" where
  "log_row n et ts =
     \<lparr>log_id = n, user_uuid = ''u1'', habit_id = 1, event_type = et, timestamp = ts,
      source = ''app''\<rparr>"

definition month_state :: app_state where
  "month_state =
     empty_state\<lparr>habit_logs :=
       [log_row 1 ''complete'' ''2023-12-31T23:59:59.250000'',
        log_row 2 ''complete'' ''2024-01-01T00:00:00'',
        log_row 3 ''skip'' ''2024-01-02T07:30:00'',
        log_row 4 ''complete'' ''2024-01-03T07:30:00'',
        log_row 5 ''notification_sent'' ''2024-01-04T07:00:00'',
        log_row 6 ''complete'' ''2024-01-04T07:30:00'',
        log_row 7 ''skip'' ''2024-01-10T07:30:00'',
        log_row 8 ''complete'' ''2024-01-11T07:30:00'',
        log_row 9 ''complete'' ''2024-01-20T07:30:00'',
        log_row 10 ''skip'' ''2024-01-21T07:30:00'',
        log_row 11 ''complete'' ''2024-01-29T07:30:00'',
        log_row 12 ''complete'' ''2024-01-30T07:30:00.250000'']\<rparr>"

text \<open>The same month with the first row stamped in the last microsecond of 2023.\<close>

definition boundary_state :: app_state where
  "boundary_state =
     month_state\<lparr>habit_logs :=
       log_row 1 ''complete'' ''2023-12-31T23:59:59.999999'' # tl (habit_logs month_state)\<rparr>"

lemmas float_simps =
  completion_rate_def py_round1_def bit_length.simps fl_def ilog2_def round_half_even_def Let_def

lemmas exec_simps =
  run_def log_event_def undo_last_event_def Let_def insert_habit_log_def
  insert_or_ignore_daily_agg_def update_daily_agg_def delete_habit_log_def next_rowid_def
  day_of_def dec_floor_def empty_state_def counter_def count_events_def request_def
  sqlite_int64_def

section \<open>The query that picks the row\<close>

lemma latest_None_iff: "order_by_timestamp_desc_limit_1 rs = None \<longleftrightarrow> rs = []"
  by (induction rs) (auto split: option.splits)


lemma latest_in_set: "order_by_timestamp_desc_limit_1 rs = Some r \<Longrightarrow> r \<in> set rs"
  by (induction rs arbitrary: r) (auto split: option.splits if_splits)

lemma latest_is_max:
  "order_by_timestamp_desc_limit_1 rs = Some r \<Longrightarrow> r' \<in> set rs \<Longrightarrow> timestamp r' \<le> timestamp r"
proof (induction rs arbitrary: r)
  case Nil
  then show ?case by simp
next
  case (Cons a rs)
  show ?case
  proof (cases "order_by_timestamp_desc_limit_1 rs")
    case None
    then have "rs = []" by (simp add: latest_None_iff)
    with Cons.prems None show ?thesis by simp
  next
    case (Some b)
    with Cons show ?thesis
      by (auto split: if_splits)
  qed
qed

lemma latest_first:
  "order_by_timestamp_desc_limit_1 rs = Some r \<Longrightarrow>
   \<exists>pre post. rs = pre @ r # post \<and> (\<forall>x \<in> set pre. timestamp x < timestamp r)"
proof (induction rs arbitrary: r)
  case Nil
  then show ?case by simp
next
  case (Cons a rs)
  show ?case
  proof (cases "order_by_timestamp_desc_limit_1 rs")
    case None
    with Cons.prems have "r = a" by simp
    then have "a # rs = [] @ r # rs \<and> (\<forall>x \<in> set []. timestamp x < timestamp r)" by simp
    then show ?thesis by blast
  next
    case (Some b)
    show ?thesis
    proof (cases "timestamp a < timestamp b")
      case True
      with Some Cons.prems have rb: "r = b" by simp
      from Cons.IH[OF Some] obtain pre post where
        p: "rs = pre @ b # post" "\<forall>x \<in> set pre. timestamp x < timestamp b" by blast
      with True rb have "a # rs = (a # pre) @ r # post \<and> (\<forall>x \<in> set (a # pre). timestamp x < timestamp r)"
        by simp
      then show ?thesis by blast
    next
      case False
      with Some Cons.prems have "r = a" by simp
      then have "a # rs = [] @ r # rs \<and> (\<forall>x \<in> set []. timestamp x < timestamp r)" by simp
      then show ?thesis by blast
    qed
  qed
qed

lemma delete_by_key:
  "distinct (map f xs) \<Longrightarrow> r \<in> set xs \<Longrightarrow> filter (\<lambda>x. f x \<noteq> f r) xs = remove1 r xs"
proof (induction xs)
  case Nil
  then show ?case by simp
next
  case (Cons a xs)
  show ?case
  proof (cases "a = r")
    case True
    with Cons.prems have "\<forall>x \<in> set xs. f x \<noteq> f r" by (auto simp: image_iff)
    then have "filter (\<lambda>x. f x \<noteq> f r) xs = xs" by (simp add: filter_id_conv)
    with True show ?thesis by simp
  next
    case False
    with Cons.prems have "r \<in> set xs" "f a \<noteq> f r" "distinct (map f xs)" by (auto simp: image_iff)
    with Cons.IH False show ?thesis by simp
  qed
qed

lemma length_filter_remove1:
  "r \<in> set xs \<Longrightarrow>
   length (filter P xs) = length (filter P (remove1 r xs)) + (if P r then 1 else 0)"
  by (induction xs) auto


lemma log_event_invalid:
  "req_habit_id data = None \<or> req_habit_id data = Some 0 \<or> req_event_type data = None \<or>
   req_event_type data = Some [] \<Longrightarrow>
   log_event data ts u s = ((400, Error ''Missing habit_id or event_type''), s)"
  by (auto simp: log_event_def split: option.splits)

lemma log_event_dropped:
  assumes "req_habit_id data = Some hid" "req_event_type data = Some et" "hid \<noteq> 0" "et \<noteq> []"
    "\<not> sqlite_int64 hid"
  shows "log_event data ts u s =
         ((201, EventLogged \<lparr>ev_habit_id = hid, ev_event_type = et,
             ev_source = (case req_source data of None \<Rightarrow> ''unknown'' | Some x \<Rightarrow> x),
             ev_timestamp = ts\<rparr>),
          s\<lparr>config_events := config_events s @
             [\<lparr>ev_habit_id = hid, ev_event_type = et,
               ev_source = (case req_source data of None \<Rightarrow> ''unknown'' | Some x \<Rightarrow> x),
               ev_timestamp = ts\<rparr>]\<rparr>)"
  using assms by (simp add: log_event_def Let_def)

lemma log_event_cases:
  obtains (unchanged) "habit_logs (snd (log_event data ts u s)) = habit_logs s"
      "daily_agg (snd (log_event data ts u s)) = daily_agg s"
  | (stored) hid et where "req_habit_id data = Some hid" "req_event_type data = Some et"
      "hid \<noteq> 0" "et \<noteq> []" "sqlite_int64 hid"
proof (cases "req_habit_id data = None \<or> req_habit_id data = Some 0 \<or> req_event_type data = None \<or>
   req_event_type data = Some []")
  case True
  then show ?thesis using unchanged by (simp add: log_event_invalid)
next
  case False
  then obtain hid et where v: "req_habit_id data = Some hid" "req_event_type data = Some et"
    "hid \<noteq> 0" "et \<noteq> []" by auto
  show ?thesis
  proof (cases "sqlite_int64 hid")
    case True
    with v show ?thesis using stored by blast
  next
    case False
    show ?thesis using unchanged by (simp add: log_event_dropped[OF v False])
  qed
qed

lemma log_event_logs:
  assumes "req_habit_id data = Some hid" "req_event_type data = Some et" "hid \<noteq> 0" "et \<noteq> []"
    "sqlite_int64 hid"
  shows "habit_logs (snd (log_event data ts u s)) =
         habit_logs s @
           [\<lparr>log_id = next_rowid s,
             user_uuid = (case req_user_uuid data of None \<Rightarrow> u | Some x \<Rightarrow> if x = [] then u else x),
             habit_id = hid, event_type = et, timestamp = ts,
             source = (case req_source data of None \<Rightarrow> ''unknown'' | Some x \<Rightarrow> x)\<rparr>]"
  using assms
  by (simp add: log_event_def Let_def insert_habit_log_def insert_or_ignore_daily_agg_def
        update_daily_agg_def next_rowid_def split: option.splits)

lemma log_event_agg:
  assumes "req_habit_id data = Some hid" "req_event_type data = Some et" "hid \<noteq> 0" "et \<noteq> []"
    "sqlite_int64 hid"
  shows "daily_agg (snd (log_event data ts u s)) =
         (daily_agg s)((hid, day_of ts) \<mapsto>
            (if et = ''complete''
             then (bucket_or_zero s hid (day_of ts))
                    \<lparr>completions := completions (bucket_or_zero s hid (day_of ts)) + 1\<rparr>
             else if et = ''skip''
             then (bucket_or_zero s hid (day_of ts))
                    \<lparr>skips := skips (bucket_or_zero s hid (day_of ts)) + 1\<rparr>
             else bucket_or_zero s hid (day_of ts)))"
  using assms
  by (auto simp: log_event_def Let_def insert_habit_log_def insert_or_ignore_daily_agg_def
        update_daily_agg_def bucket_or_zero_def fun_upd_idem split: option.splits)


lemma undo_invalid:
  "rq = None \<or> rq = Some 0 \<Longrightarrow> undo_last_event rq cutoff s = ((400, Error ''habit_id required''), s)"
  by (auto simp: undo_last_event_def)

lemma undo_raised:
  "hid \<noteq> 0 \<Longrightarrow> \<not> sqlite_int64 hid \<Longrightarrow>
   undo_last_event (Some hid) cutoff s = ((500, Error ''Internal Server Error''), s)"
  by (simp add: undo_last_event_def)

lemma undo_found:
  assumes "hid \<noteq> 0" "sqlite_int64 hid"
    and "order_by_timestamp_desc_limit_1
           (filter (\<lambda>r. habit_id r = hid \<and> cutoff \<le> timestamp r) (habit_logs s)) = Some row"
  shows "undo_last_event (Some hid) cutoff s =
         ((200, Status ''undone''),
          s\<lparr>habit_logs := filter (\<lambda>r. log_id r \<noteq> log_id row) (habit_logs s),
            daily_agg :=
              (case daily_agg s (hid, day_of (timestamp row)) of
                 None \<Rightarrow> daily_agg s
               | Some b \<Rightarrow>
                   (daily_agg s)((hid, day_of (timestamp row)) \<mapsto>
                     (if event_type row = ''complete''
                      then b\<lparr>completions := dec_floor (completions b)\<rparr>
                      else if event_type row = ''skip''
                      then b\<lparr>skips := dec_floor (skips b)\<rparr>
                      else b)))\<rparr>)"
  using assms
  by (auto simp: undo_last_event_def Let_def delete_habit_log_def update_daily_agg_def
        fun_upd_idem split: option.splits)


lemma fold_max_ge_init: "(a::nat) \<le> fold max xs a"
  by (induction xs arbitrary: a) (auto intro: order_trans[OF max.cobounded2])

lemma fold_max_ge_elem: "x \<in> set xs \<Longrightarrow> (x::nat) \<le> fold max xs a"
proof (induction xs arbitrary: a)
  case Nil
  then show ?case by simp
next
  case (Cons y ys)
  show ?case
  proof (cases "x = y")
    case True
    have "max y a \<le> fold max ys (max y a)" by (rule fold_max_ge_init)
    with True show ?thesis by simp
  next
    case False
    with Cons show ?thesis by simp
  qed
qed

lemma next_rowid_fresh: "r \<in> set (habit_logs s) \<Longrightarrow> log_id r < next_rowid s"
  unfolding next_rowid_def
  using fold_max_ge_elem[of "log_id r" "map log_id (habit_logs s)" "habit_logs_seq s"]
  by auto

lemma log_event_distinct:
  assumes "rowids_distinct s"
  shows "rowids_distinct (snd (log_event data ts u s))"
proof (cases rule: log_event_cases[of data ts u s])
  case unchanged
  then show ?thesis using assms by (simp add: rowids_distinct_def)
next
  case (stored hid et)
  note v = stored
  have "next_rowid s \<notin> log_id ` set (habit_logs s)"
    using next_rowid_fresh[of _ s] by fastforce
  with assms show ?thesis
    by (simp add: rowids_distinct_def log_event_logs[OF v])
qed

lemma counter_after_log:
  assumes "req_habit_id data = Some hid" "req_event_type data = Some et" "hid \<noteq> 0" "et \<noteq> []"
    "sqlite_int64 hid"
  shows "counter completions h d (snd (log_event data ts u s)) =
           counter completions h d s +
           (if h = hid \<and> d = day_of ts \<and> et = ''complete'' then 1 else 0)"
    and "counter skips h d (snd (log_event data ts u s)) =
           counter skips h d s + (if h = hid \<and> d = day_of ts \<and> et = ''skip'' then 1 else 0)"
  by (auto simp: counter_def log_event_agg[OF assms] bucket_or_zero_def split: option.splits)

lemma count_after_log:
  assumes "req_habit_id data = Some hid" "req_event_type data = Some et" "hid \<noteq> 0" "et \<noteq> []"
    "sqlite_int64 hid"
  shows "count_events e h d (snd (log_event data ts u s)) =
           count_events e h d s + (if h = hid \<and> d = day_of ts \<and> e = et then 1 else 0)"
  by (auto simp: count_events_def log_event_logs[OF assms])

lemma log_event_consistent:
  assumes "agg_consistent s"
  shows "agg_consistent (snd (log_event data ts u s))"
proof (cases rule: log_event_cases[of data ts u s])
  case unchanged
  then show ?thesis using assms
    by (simp add: agg_consistent_def counter_def count_events_def)
next
  case (stored hid et)
  note v = stored
  show ?thesis
    unfolding agg_consistent_def
  proof (intro allI conjI)
    fix h d
    from assms have c: "counter completions h d s = int (count_events ''complete'' h d s)"
      and k: "counter skips h d s = int (count_events ''skip'' h d s)"
      by (simp_all add: agg_consistent_def)
    show "counter completions h d (snd (log_event data ts u s)) =
          int (count_events ''complete'' h d (snd (log_event data ts u s)))"
      using c by (simp add: counter_after_log[OF v] count_after_log[OF v])
    show "counter skips h d (snd (log_event data ts u s)) =
          int (count_events ''skip'' h d (snd (log_event data ts u s)))"
      using k by (simp add: counter_after_log[OF v] count_after_log[OF v])
  qed
qed


lemma undo_none:
  assumes "hid \<noteq> 0" "sqlite_int64 hid"
    and "order_by_timestamp_desc_limit_1
           (filter (\<lambda>r. habit_id r = hid \<and> cutoff \<le> timestamp r) (habit_logs s)) = None"
  shows "undo_last_event (Some hid) cutoff s = ((404, Status ''no_recent_event''), s)"
  using assms by (simp add: undo_last_event_def)

lemma undo_cases:
  obtains (invalid) "undo_last_event rq cutoff s = ((400, Error ''habit_id required''), s)"
  | (none) "undo_last_event rq cutoff s = ((404, Status ''no_recent_event''), s)"
  | (raised) "undo_last_event rq cutoff s = ((500, Error ''Internal Server Error''), s)"
  | (found) hid row where "rq = Some hid" "hid \<noteq> 0" "sqlite_int64 hid"
      "order_by_timestamp_desc_limit_1
         (filter (\<lambda>r. habit_id r = hid \<and> cutoff \<le> timestamp r) (habit_logs s)) = Some row"
proof (cases "rq = None \<or> rq = Some 0")
  case True
  then show ?thesis using invalid by (simp add: undo_invalid)
next
  case False
  then obtain hid where h: "rq = Some hid" "hid \<noteq> 0" by auto
  show ?thesis
  proof (cases "sqlite_int64 hid")
    case False
    then show ?thesis using raised h by (simp add: undo_raised)
  next
    case True
    show ?thesis
    proof (cases "order_by_timestamp_desc_limit_1
           (filter (\<lambda>r. habit_id r = hid \<and> cutoff \<le> timestamp r) (habit_logs s))")
      case None
      then show ?thesis using none h True by (simp add: undo_none)
    next
      case (Some row)
      then show ?thesis using found h True by blast
    qed
  qed
qed

lemma undo_selected_row:
  assumes "order_by_timestamp_desc_limit_1
             (filter (\<lambda>r. habit_id r = hid \<and> cutoff \<le> timestamp r) (habit_logs s)) = Some row"
  shows "row \<in> set (habit_logs s)" "habit_id row = hid" "cutoff \<le> timestamp row"
  using latest_in_set[OF assms] by simp_all

lemma undo_logs:
  assumes "hid \<noteq> 0" "sqlite_int64 hid" "rowids_distinct s"
    and "order_by_timestamp_desc_limit_1
           (filter (\<lambda>r. habit_id r = hid \<and> cutoff \<le> timestamp r) (habit_logs s)) = Some row"
  shows "habit_logs (snd (undo_last_event (Some hid) cutoff s)) = remove1 row (habit_logs s)"
  using assms(3) undo_selected_row(1)[OF assms(4)]
  by (simp add: undo_found[OF assms(1,2,4)] rowids_distinct_def delete_by_key)

lemma undo_distinct:
  assumes "rowids_distinct s"
  shows "rowids_distinct (snd (undo_last_event rq cutoff s))"
proof (cases rule: undo_cases[of rq cutoff s])
  case invalid
  then show ?thesis using assms by simp
next
  case none
  then show ?thesis using assms by simp
next
  case raised
  then show ?thesis using assms by simp
next
  case (found hid row)
  with assms show ?thesis
    by (simp add: undo_found rowids_distinct_def distinct_map_filter)
qed

lemma count_after_undo:
  assumes "hid \<noteq> 0" "sqlite_int64 hid" "rowids_distinct s"
    and "order_by_timestamp_desc_limit_1
           (filter (\<lambda>r. habit_id r = hid \<and> cutoff \<le> timestamp r) (habit_logs s)) = Some row"
  shows "count_events e h d s =
         count_events e h d (snd (undo_last_event (Some hid) cutoff s)) +
           (if h = hid \<and> d = day_of (timestamp row) \<and> event_type row = e then 1 else 0)"
  unfolding count_events_def undo_logs[OF assms]
  using length_filter_remove1[OF undo_selected_row(1)[OF assms(4)],
      of "\<lambda>r. habit_id r = h \<and> event_type r = e \<and> day_of (timestamp r) = d"]
    undo_selected_row(2)[OF assms(4)]
  by auto

lemma counter_after_undo:
  assumes "hid \<noteq> 0" "sqlite_int64 hid"
    and "order_by_timestamp_desc_limit_1
           (filter (\<lambda>r. habit_id r = hid \<and> cutoff \<le> timestamp r) (habit_logs s)) = Some row"
  shows "counter completions h d (snd (undo_last_event (Some hid) cutoff s)) =
           (if h = hid \<and> d = day_of (timestamp row) \<and> event_type row = ''complete''
            then dec_floor (counter completions h d s) else counter completions h d s)"
    and "counter skips h d (snd (undo_last_event (Some hid) cutoff s)) =
           (if h = hid \<and> d = day_of (timestamp row) \<and> event_type row = ''skip''
            then dec_floor (counter skips h d s) else counter skips h d s)"
  by (auto simp: counter_def undo_found[OF assms] dec_floor_def split: option.splits)

lemma undo_consistent:
  assumes "rowids_distinct s" "agg_consistent s"
  shows "agg_consistent (snd (undo_last_event rq cutoff s))"
proof (cases rule: undo_cases[of rq cutoff s])
  case invalid
  then show ?thesis using assms by simp
next
  case none
  then show ?thesis using assms by simp
next
  case raised
  then show ?thesis using assms by simp
next
  case (found hid row)
  note cnt = count_after_undo[OF found(2,3) assms(1) found(4)]
  note ctr = counter_after_undo[OF found(2,3,4)]
  show ?thesis
    unfolding agg_consistent_def found(1)
  proof (intro allI conjI)
    fix h d
    from assms(2) have c: "counter completions h d s = int (count_events ''complete'' h d s)"
      and k: "counter skips h d s = int (count_events ''skip'' h d s)"
      by (simp_all add: agg_consistent_def)
    show "counter completions h d (snd (undo_last_event (Some hid) cutoff s)) =
          int (count_events ''complete'' h d (snd (undo_last_event (Some hid) cutoff s)))"
      using c cnt[of "''complete''" h d] by (auto simp: ctr dec_floor_def)
    show "counter skips h d (snd (undo_last_event (Some hid) cutoff s)) =
          int (count_events ''skip'' h d (snd (undo_last_event (Some hid) cutoff s)))"
      using k cnt[of "''skip''" h d] by (auto simp: ctr dec_floor_def)
  qed
qed

lemma apply_op_invariant:
  assumes "rowids_distinct s" "agg_consistent s"
  shows "rowids_distinct (apply_op x s) \<and> agg_consistent (apply_op x s)"
  using assms
  by (cases x) (simp_all add: log_event_distinct log_event_consistent undo_distinct undo_consistent)

lemma run_invariant:
  assumes "rowids_distinct s" "agg_consistent s"
  shows "rowids_distinct (run ops s) \<and> agg_consistent (run ops s)"
  using assms unfolding run_def
proof (induction ops arbitrary: s)
  case Nil
  then show ?case by simp
next
  case (Cons x xs)
  from apply_op_invariant[OF Cons.prems] Cons.IH[of "apply_op x s"]
  show ?case by simp
qed

section \<open>Counters stay at or above zero\<close>

lemma bucket_or_zero_nonneg:
  "agg_nonneg s \<Longrightarrow>
   0 \<le> completions (bucket_or_zero s hid day) \<and> 0 \<le> skips (bucket_or_zero s hid day)"
  unfolding agg_nonneg_def bucket_or_zero_def by (cases "daily_agg s (hid, day)") auto

lemma log_event_nonneg:
  assumes "agg_nonneg s"
  shows "agg_nonneg (snd (log_event data ts u s))"
proof (cases rule: log_event_cases[of data ts u s])
  case unchanged
  then show ?thesis using assms by (simp add: agg_nonneg_def)
next
  case (stored hid et)
  note v = stored
  show ?thesis
    unfolding agg_nonneg_def
  proof (intro allI impI)
    fix k b
    assume kb: "daily_agg (snd (log_event data ts u s)) k = Some b"
    show "0 \<le> completions b \<and> 0 \<le> skips b"
    proof (cases "k = (hid, day_of ts)")
      case True
      with kb bucket_or_zero_nonneg[OF assms, of hid "day_of ts"] show ?thesis
        by (auto simp: log_event_agg[OF v] split: if_splits)
    next
      case False
      with kb have "daily_agg s k = Some b" by (simp add: log_event_agg[OF v])
      with assms show ?thesis unfolding agg_nonneg_def by blast
    qed
  qed
qed

lemma dec_floor_nonneg: "0 \<le> dec_floor c"
  by (simp add: dec_floor_def)

lemma undo_nonneg:
  assumes "agg_nonneg s"
  shows "agg_nonneg (snd (undo_last_event rq cutoff s))"
proof (cases rule: undo_cases[of rq cutoff s])
  case invalid
  then show ?thesis using assms by simp
next
  case none
  then show ?thesis using assms by simp
next
  case raised
  then show ?thesis using assms by simp
next
  case (found hid row)
  show ?thesis
    unfolding agg_nonneg_def found(1)
  proof (intro allI impI)
    fix k b
    assume kb: "daily_agg (snd (undo_last_event (Some hid) cutoff s)) k = Some b"
    show "0 \<le> completions b \<and> 0 \<le> skips b"
    proof (cases "daily_agg s (hid, day_of (timestamp row))")
      case None
      with kb have "daily_agg s k = Some b" by (simp add: undo_found[OF found(2,3,4)])
      with assms show ?thesis unfolding agg_nonneg_def by blast
    next
      case (Some b0)
      with assms have b0: "0 \<le> completions b0 \<and> 0 \<le> skips b0"
        unfolding agg_nonneg_def by blast
      show ?thesis
      proof (cases "k = (hid, day_of (timestamp row))")
        case True
        with kb Some b0 show ?thesis
          by (auto simp: undo_found[OF found(2,3,4)] dec_floor_nonneg split: if_splits)
      next
        case False
        with kb Some have "daily_agg s k = Some b" by (simp add: undo_found[OF found(2,3,4)])
        with assms show ?thesis unfolding agg_nonneg_def by blast
      qed
    qed
  qed
qed

lemma run_nonneg: "agg_nonneg s \<Longrightarrow> agg_nonneg (run ops s)"
  unfolding run_def
proof (induction ops arbitrary: s)
  case Nil
  then show ?case by simp
next
  case (Cons x xs)
  have "agg_nonneg (apply_op x s)"
    using Cons.prems by (cases x) (simp_all add: log_event_nonneg undo_nonneg)
  with Cons.IH show ?case by simp
qed

lemma undo_keeps_zero:
  assumes "counter sel h d s = 0" "sel = completions \<or> sel = skips"
  shows "counter sel h d (snd (undo_last_event rq cutoff s)) = 0"
proof (cases rule: undo_cases[of rq cutoff s])
  case invalid
  then show ?thesis using assms by simp
next
  case none
  then show ?thesis using assms by simp
next
  case raised
  then show ?thesis using assms by simp
next
  case (found hid row)
  from assms show ?thesis
    unfolding found(1)
    by (auto simp: counter_after_undo[OF found(2,3,4)] dec_floor_def)
qed

lemma log_event_never_lowers:
  assumes "sel = completions \<or> sel = skips"
  shows "counter sel h d s \<le> counter sel h d (snd (log_event data ts u s))"
proof (cases rule: log_event_cases[of data ts u s])
  case unchanged
  then show ?thesis by (simp add: counter_def)
next
  case (stored hid et)
  note v = stored
  from assms show ?thesis
    by (auto simp: counter_after_log[OF v])
qed

section \<open>The latest status of a day\<close>

lemma like_percent: "sql_like ''%'' s"
  by (induction s) auto

lemma of_char_lower:
  assumes "CHR ''A'' \<le> c" "c \<le> CHR ''Z''"
  shows "97 \<le> (of_char (ascii_lower c) :: nat)"
proof -
  from assms have b: "65 \<le> (of_char c :: nat)" "(of_char c :: nat) \<le> 90"
    by (simp_all add: less_eq_char_def)
  then have "(of_char c + 32 :: nat) < 256" by simp
  then have "(of_char (char_of (of_char c + (32::nat))) :: nat) = of_char c + 32"
    by (simp add: of_char_of)
  with assms b show ?thesis by (simp add: ascii_lower_def)
qed

lemma plain_char:
  assumes "p \<in> set ''0123456789-''"
  shows "p \<noteq> CHR ''%''" "p \<noteq> CHR ''_''" "ascii_lower p = p" "ascii_lower c = p \<longleftrightarrow> c = p"
proof -
  from assms show "p \<noteq> CHR ''%''" "p \<noteq> CHR ''_''" by auto
  from assms show lp: "ascii_lower p = p" by (auto simp: ascii_lower_def less_eq_char_def)
  from assms have small: "(of_char p :: nat) < 97" by auto
  show "ascii_lower c = p \<longleftrightarrow> c = p"
  proof (cases "CHR ''A'' \<le> c \<and> c \<le> CHR ''Z''")
    case True
    then have "97 \<le> (of_char (ascii_lower c) :: nat)" by (simp add: of_char_lower)
    with small have "ascii_lower c \<noteq> p" by auto
    moreover from True assms have "c \<noteq> p" by (auto simp: less_eq_char_def)
    ultimately show ?thesis by simp
  next
    case False
    then show ?thesis by (auto simp: ascii_lower_def)
  qed
qed

lemma like_day_prefix:
  "set p \<subseteq> set ''0123456789-'' \<Longrightarrow> sql_like (p @ ''%'') s \<longleftrightarrow> take (length p) s = p"
proof (induction p arbitrary: s)
  case Nil
  then show ?case by (simp add: like_percent)
next
  case (Cons a p)
  then have a: "a \<in> set ''0123456789-''" and p: "set p \<subseteq> set ''0123456789-''" by auto
  note pc = plain_char[OF a]
  show ?case
  proof (cases s)
    case Nil
    with pc show ?thesis by simp
  next
    case (Cons c cs)
    have "ascii_lower a = ascii_lower c \<longleftrightarrow> c = a"
      using pc(4)[of c] pc(3) by auto
    with Cons pc(1,2) Cons.IH[OF p, of cs] show ?thesis by auto
  qed
qed


lemma log_event_rowid_order:
  assumes "rowid_order s"
  shows "rowid_order (snd (log_event data ts u s))"
proof (cases rule: log_event_cases[of data ts u s])
  case unchanged
  then show ?thesis using assms by (simp add: rowid_order_def)
next
  case (stored hid et)
  note v = stored
  from assms next_rowid_fresh[of _ s] show ?thesis
    by (auto simp: rowid_order_def log_event_logs[OF v] sorted_wrt_append)
qed

lemma undo_rowid_order:
  assumes "rowid_order s"
  shows "rowid_order (snd (undo_last_event rq cutoff s))"
proof (cases rule: undo_cases[of rq cutoff s])
  case invalid
  then show ?thesis using assms by simp
next
  case none
  then show ?thesis using assms by simp
next
  case raised
  then show ?thesis using assms by simp
next
  case (found hid row)
  with assms show ?thesis
    by (simp add: undo_found rowid_order_def sorted_wrt_map sorted_wrt_filter)
qed

lemma run_rowid_order: "rowid_order s \<Longrightarrow> rowid_order (run ops s)"
  unfolding run_def
proof (induction ops arbitrary: s)
  case Nil
  then show ?case by simp
next
  case (Cons x xs)
  have "rowid_order (apply_op x s)"
    using Cons.prems by (cases x) (simp_all add: log_event_rowid_order undo_rowid_order)
  with Cons.IH show ?case by simp
qed

lemma rowid_order_empty: "rowid_order empty_state"
  by (simp add: rowid_order_def empty_state_def)

lemma latest_first_by_rowid:
  assumes "sorted_wrt (<) (map log_id rs)"
    and "order_by_timestamp_desc_limit_1 rs = Some row"
    and "r \<in> set rs" and "timestamp r = timestamp row"
  shows "log_id row \<le> log_id r"
proof -
  from latest_first[OF assms(2)] obtain pre post where
    sp: "rs = pre @ row # post" and pre: "\<forall>x \<in> set pre. timestamp x < timestamp row"
    by blast
  from assms(3,4) pre sp have "r = row \<or> r \<in> set post" by auto
  moreover from assms(1) sp have "\<forall>x \<in> set post. log_id row < log_id x"
    by (simp add: sorted_wrt_append)
  ultimately show ?thesis by auto
qed


section \<open>Dates, and what the two loops count\<close>

lemma days_in_month_bounds: "28 \<le> days_in_month y m" "days_in_month y m \<le> 31"
  by (simp_all add: days_in_month_def)

lemma days_in_december: "days_in_month y 12 = 31"
  by (simp add: days_in_month_def)

lemma date_minus_day_valid:
  assumes "valid_date c" "date_minus_day c = Inr c'"
  shows "valid_date c'"
proof -
  obtain y m d where c: "c = Date y m d" by (cases c)
  consider (day) "1 < d" | (month) "\<not> 1 < d" "1 < m" | (year) "\<not> 1 < d" "\<not> 1 < m" "1 < y"
    | (none) "\<not> 1 < d" "\<not> 1 < m" "\<not> 1 < y" by blast
  then show ?thesis
  proof cases
    case day
    with assms show ?thesis unfolding c by auto
  next
    case month
    with assms days_in_month_bounds(1)[of y "m - 1"] show ?thesis unfolding c by auto
  next
    case year
    with assms show ?thesis unfolding c by (auto simp: days_in_december)
  next
    case none
    with assms show ?thesis unfolding c by simp
  qed
qed

lemma date_minus_day_error:
  assumes "valid_date c" "date_minus_day c = Inl e"
  shows "c = Date 1 1 1"
proof -
  obtain y m d where c: "c = Date y m d" by (cases c)
  from assms(2) have "\<not> 1 < d" "\<not> 1 < m" "\<not> 1 < y"
    unfolding c by (simp_all split: if_splits)
  with assms(1) show ?thesis
    unfolding c by simp
qed

lemma date_plus_day_valid:
  assumes "valid_date c" "date_plus_day c = Inr c'"
  shows "valid_date c'"
proof -
  obtain y m d where c: "c = Date y m d" by (cases c)
  consider (day) "d < days_in_month y m"
    | (month) "\<not> d < days_in_month y m" "m < 12"
    | (year) "\<not> d < days_in_month y m" "\<not> m < 12" "y < 9999"
    | (none) "\<not> d < days_in_month y m" "\<not> m < 12" "\<not> y < 9999" by blast
  then show ?thesis
  proof cases
    case day
    with assms show ?thesis unfolding c by auto
  next
    case month
    with assms days_in_month_bounds(1)[of y "m + 1"] show ?thesis unfolding c by auto
  next
    case year
    with assms days_in_month_bounds(1)[of "y + 1" 1] show ?thesis unfolding c by auto
  next
    case none
    with assms show ?thesis unfolding c by simp
  qed
qed

lemma date_plus_day_error:
  assumes "valid_date c" "date_plus_day c = Inl e"
  shows "c = Date 9999 12 31"
proof -
  obtain y m d where c: "c = Date y m d" by (cases c)
  from assms(2) have n: "\<not> d < days_in_month y m" "\<not> m < 12" "\<not> y < 9999"
    unfolding c by (simp_all split: if_splits)
  with assms(1) have "m = 12" "y = 9999" unfolding c by simp_all
  with n(1) assms(1) show ?thesis
    unfolding c by (simp add: days_in_december)
qed

lemma streak_loop_counts:
  assumes "isoformat (Date 1 1 1) \<notin> set ds"
  shows "valid_date c \<Longrightarrow>
         \<exists>n. streak_loop ds c s = Inr (s + n) \<and>
             (\<forall>k<n. \<exists>c'. days_back c k = Inr c' \<and> isoformat c' \<in> set ds) \<and>
             (\<exists>c'. days_back c n = Inr c' \<and> isoformat c' \<notin> set ds)"
  using assms
proof (induction ds c s rule: streak_loop.induct)
  case (1 ds c s)
  show ?case
  proof (cases "isoformat c \<in> set ds")
    case False
    then have "streak_loop ds c s = Inr (s + 0)"
      by (subst streak_loop.simps) simp
    moreover have "\<exists>c'. days_back c 0 = Inr c' \<and> isoformat c' \<notin> set ds"
      using False by simp
    ultimately show ?thesis by blast
  next
    case True
    with "1.prems"(2) have "c \<noteq> Date 1 1 1" by auto
    with date_minus_day_error[OF "1.prems"(1)] obtain p where p: "date_minus_day c = Inr p"
      by (cases "date_minus_day c") auto
    have vp: "valid_date p" by (rule date_minus_day_valid[OF "1.prems"(1) p])
    from "1.IH"[OF True p vp "1.prems"(2)] obtain n where
      n: "streak_loop ds p (s + 1) = Inr (s + 1 + n)"
         "\<forall>k<n. \<exists>c'. days_back p k = Inr c' \<and> isoformat c' \<in> set ds"
         "\<exists>c'. days_back p n = Inr c' \<and> isoformat c' \<notin> set ds"
      by blast
    have a: "streak_loop ds c s = Inr (s + Suc n)"
      using True p n(1) by (subst streak_loop.simps) simp
    have b: "\<exists>c'. days_back c k = Inr c' \<and> isoformat c' \<in> set ds" if "k < Suc n" for k
    proof (cases k)
      case 0
      with True show ?thesis by simp
    next
      case (Suc j)
      with that n(2) p show ?thesis by simp
    qed
    have d: "\<exists>c'. days_back c (Suc n) = Inr c' \<and> isoformat c' \<notin> set ds"
      using n(3) p by simp
    from a b d show ?thesis by blast
  qed
qed

lemma run_loop_counts:
  assumes "isoformat (Date 9999 12 31) \<notin> set ds"
  shows "valid_date c \<Longrightarrow>
         \<exists>n. run_loop ds c s = Inr (s + n) \<and>
             (\<forall>k<n. \<exists>c'. days_on c k = Inr c' \<and> isoformat c' \<in> set ds) \<and>
             (\<exists>c'. days_on c n = Inr c' \<and> isoformat c' \<notin> set ds)"
  using assms
proof (induction ds c s rule: run_loop.induct)
  case (1 ds c s)
  show ?case
  proof (cases "isoformat c \<in> set ds")
    case False
    then have "run_loop ds c s = Inr (s + 0)"
      by (subst run_loop.simps) simp
    moreover have "\<exists>c'. days_on c 0 = Inr c' \<and> isoformat c' \<notin> set ds"
      using False by simp
    ultimately show ?thesis by blast
  next
    case True
    with "1.prems"(2) have "c \<noteq> Date 9999 12 31" by auto
    with date_plus_day_error[OF "1.prems"(1)] obtain p where p: "date_plus_day c = Inr p"
      by (cases "date_plus_day c") auto
    have vp: "valid_date p" by (rule date_plus_day_valid[OF "1.prems"(1) p])
    from "1.IH"[OF True p vp "1.prems"(2)] obtain n where
      n: "run_loop ds p (s + 1) = Inr (s + 1 + n)"
         "\<forall>k<n. \<exists>c'. days_on p k = Inr c' \<and> isoformat c' \<in> set ds"
         "\<exists>c'. days_on p n = Inr c' \<and> isoformat c' \<notin> set ds"
      by blast
    have a: "run_loop ds c s = Inr (s + Suc n)"
      using True p n(1) by (subst run_loop.simps) simp
    have b: "\<exists>c'. days_on c k = Inr c' \<and> isoformat c' \<in> set ds" if "k < Suc n" for k
    proof (cases k)
      case 0
      with True show ?thesis by simp
    next
      case (Suc j)
      with that n(2) p show ?thesis by simp
    qed
    have d: "\<exists>c'. days_on c (Suc n) = Inr c' \<and> isoformat c' \<notin> set ds"
      using n(3) p by simp
    from a b d show ?thesis by blast
  qed
qed


lemma small_digit:
  "k < 10 \<Longrightarrow>
   k = 0 \<or> k = 1 \<or> k = 2 \<or> k = 3 \<or> k = 4 \<or> k = 5 \<or> k = 6 \<or> k = 7 \<or> k = 8 \<or> k = (9::nat)"
  by (simp add: eval_nat_numeral less_Suc_eq)

lemma digit_table: "k < 10 \<Longrightarrow> digit_val (''0123456789'' ! k) = Some k"
  by (drule small_digit, elim disjE) (simp_all add: digit_val_def less_eq_char_def)

lemma digit_val_digit_char: "digit_val (digit_char n) = Some (n mod 10)"
  by (simp add: digit_char_def digit_table)

lemma parse_two_digits:
  assumes "n < 100"
  shows "parse_digits acc (two_digits n @ rest) = parse_digits (100 * acc + n) rest"
proof -
  from assms have "n div 10 < 10" by simp
  then have "n div 10 mod 10 = n div 10" by simp
  moreover have "10 * (n div 10) + n mod 10 = n" by simp
  ultimately have e: "10 * (10 * acc + n div 10 mod 10) + n mod 10 = 100 * acc + n" by simp
  show ?thesis
    by (simp only: two_digits_def append_Cons append_Nil parse_digits.simps
        digit_val_digit_char option.case e)
qed

lemma parse_two_digits_end:
  "n < 100 \<Longrightarrow> parse_digits acc (two_digits n) = Some (100 * acc + n)"
  using parse_two_digits[of n acc "[]"] by simp

lemma isoformat_chars:
  "isoformat (Date y m d) =
     [digit_char (y div 100 div 10), digit_char (y div 100),
      digit_char (y mod 100 div 10), digit_char (y mod 100), CHR ''-'',
      digit_char (m div 10), digit_char m, CHR ''-'', digit_char (d div 10), digit_char d]"
  by (simp add: two_digits_def)

lemma isoformat_shape:
  "length (isoformat (Date y m d)) = 10"
  "isoformat (Date y m d) ! 4 = CHR ''-''"
  "isoformat (Date y m d) ! 7 = CHR ''-''"
  "take 4 (isoformat (Date y m d)) = two_digits (y div 100) @ two_digits (y mod 100)"
  "take 2 (drop 5 (isoformat (Date y m d))) = two_digits m"
  "drop 8 (isoformat (Date y m d)) = two_digits d"
  unfolding isoformat_chars two_digits_def by simp_all

lemma fromisoformat_isoformat:
  assumes "valid_date c"
  shows "fromisoformat (isoformat c) = Inr c"
proof -
  obtain y m d where c: "c = Date y m d" by (cases c)
  from assms have "y < 100 * 100" and m: "m < 100" unfolding c by simp_all
  then have y: "y div 100 < 100" "y mod 100 < 100"
    by (simp_all add: less_mult_imp_div_less)
  from assms days_in_month_bounds(2)[of y m] have d: "d < 100" unfolding c by simp
  have py: "parse_digits 0 (take 4 (isoformat c)) = Some y"
    unfolding c isoformat_shape by (simp add: parse_two_digits parse_two_digits_end y)
  have pm: "parse_digits 0 (take 2 (drop 5 (isoformat c))) = Some m"
    unfolding c isoformat_shape by (simp add: parse_two_digits_end m)
  have pd: "parse_digits 0 (drop 8 (isoformat c)) = Some d"
    unfolding c isoformat_shape by (simp add: parse_two_digits_end d)
  have "fromisoformat (isoformat c) =
          (if valid_date (Date y m d) then Inr (Date y m d) else Inl ValueError)"
    unfolding fromisoformat_def py pm pd
    by (simp only: c isoformat_shape(1-3) simp_thms if_True prod.case option.case)
  with assms show ?thesis
    unfolding c by simp
qed

lemma isoformat_inj:
  assumes "valid_date c" "valid_date c'" "isoformat c = isoformat c'"
  shows "c = c'"
proof -
  have "Inr c = fromisoformat (isoformat c)"
    by (simp only: fromisoformat_isoformat[OF assms(1)])
  also have "\<dots> = fromisoformat (isoformat c')"
    by (simp only: assms(3))
  also have "\<dots> = Inr c'"
    by (rule fromisoformat_isoformat[OF assms(2)])
  finally show ?thesis by simp
qed

lemma run_at_0: "run_at ds c 0"
  by (simp add: run_at_def)

lemma run_at_present: "run_at ds c k \<Longrightarrow> 0 < k \<Longrightarrow> isoformat c \<in> set ds"
  unfolding run_at_def by (drule spec[of _ 0]) simp

lemma run_from_day:
  assumes "isoformat (Date 9999 12 31) \<notin> set s" and "valid_date c" and "isoformat c \<in> set s"
  shows "\<exists>nxt len. date_plus_day c = Inr nxt \<and> run_loop s nxt 1 = Inr len \<and>
           run_at s c len \<and> (\<forall>k. run_at s c k \<longrightarrow> k \<le> len)"
proof -
  from assms have "c \<noteq> Date 9999 12 31" by auto
  with date_plus_day_error[OF assms(2)] obtain nxt where nxt: "date_plus_day c = Inr nxt"
    by (cases "date_plus_day c") auto
  have vn: "valid_date nxt" by (rule date_plus_day_valid[OF assms(2) nxt])
  from run_loop_counts[OF assms(1) vn, of 1] obtain n where
    n: "run_loop s nxt 1 = Inr (1 + n)"
       "\<forall>k<n. \<exists>c'. days_on nxt k = Inr c' \<and> isoformat c' \<in> set s"
       "\<exists>c'. days_on nxt n = Inr c' \<and> isoformat c' \<notin> set s"
    by blast
  have r: "run_at s c (1 + n)"
    unfolding run_at_def
  proof (intro allI impI)
    fix j assume j: "j < 1 + n"
    show "\<exists>c'. days_on c j = Inr c' \<and> isoformat c' \<in> set s"
    proof (cases j)
      case 0
      with assms(3) show ?thesis by simp
    next
      case (Suc i)
      with j n(2) nxt show ?thesis by simp
    qed
  qed
  have u: "k \<le> 1 + n" if k: "run_at s c k" for k
  proof (rule ccontr)
    assume "\<not> k \<le> 1 + n"
    then have "Suc n < k" by simp
    with k obtain c' where c': "days_on c (Suc n) = Inr c'" "isoformat c' \<in> set s"
      unfolding run_at_def by blast
    from n(3) obtain c'' where c'': "days_on nxt n = Inr c''" "isoformat c'' \<notin> set s"
      by blast
    from c'(1) nxt c''(1) have "c'' = c'" by simp
    with c'(2) c''(2) show False by simp
  qed
  from nxt n(1) r u show ?thesis by blast
qed

lemma longest_loop_max:
  assumes "isoformat (Date 9999 12 31) \<notin> set s"
  shows "\<forall>d \<in> set ds. d \<in> set s \<and> (\<exists>c. valid_date c \<and> d = isoformat c) \<Longrightarrow>
         \<exists>m. longest_loop s ds acc = Inr m \<and> acc \<le> m \<and>
             (\<forall>c k. valid_date c \<and> isoformat c \<in> set ds \<and> run_at s c k \<longrightarrow> k \<le> m) \<and>
             (m = acc \<or> (\<exists>c. valid_date c \<and> run_at s c m))"
proof (induction ds arbitrary: acc)
  case Nil
  then show ?case by simp
next
  case (Cons d ds)
  from Cons.prems obtain c0 where c0: "valid_date c0" "d = isoformat c0" "d \<in> set s" by auto
  from run_from_day[OF assms c0(1)] c0(2,3) obtain nxt len where
    l: "date_plus_day c0 = Inr nxt" "run_loop s nxt 1 = Inr len" "run_at s c0 len"
       "\<forall>k. run_at s c0 k \<longrightarrow> k \<le> len"
    by blast
  let ?acc = "if acc < len then len else acc"
  from Cons.prems have "\<forall>d \<in> set ds. d \<in> set s \<and> (\<exists>c. valid_date c \<and> d = isoformat c)"
    by simp
  from Cons.IH[OF this, of ?acc] obtain m where
    m: "longest_loop s ds ?acc = Inr m" "?acc \<le> m"
       "\<forall>c k. valid_date c \<and> isoformat c \<in> set ds \<and> run_at s c k \<longrightarrow> k \<le> m"
       "m = ?acc \<or> (\<exists>c. valid_date c \<and> run_at s c m)"
    by blast
  have e: "longest_loop s (d # ds) acc = Inr m"
    using m(1) l(1,2) fromisoformat_isoformat[OF c0(1)] c0(2) by simp
  have b: "acc \<le> m" "len \<le> m" using m(2) by (simp_all split: if_splits)
  have u: "k \<le> m" if "valid_date c" "isoformat c \<in> set (d # ds)" "run_at s c k" for c k
  proof (cases "isoformat c = d")
    case True
    with c0 that(1) have "c = c0" by (simp add: isoformat_inj)
    with that(3) l(4) b(2) show ?thesis by auto
  next
    case False
    with that m(3) show ?thesis by auto
  qed
  have w: "m = acc \<or> (\<exists>c. valid_date c \<and> run_at s c m)"
  proof (cases "m = ?acc")
    case True
    with c0(1) l(3) show ?thesis by (auto split: if_splits)
  next
    case False
    with m(4) show ?thesis by simp
  qed
  from e b(1) u w show ?case by blast
qed

lemma longest_consecutive_longest_run:
  assumes "\<forall>d \<in> set ds. \<exists>c. valid_date c \<and> d = isoformat c"
    and "isoformat (Date 9999 12 31) \<notin> set ds"
  shows "\<exists>m. longest_consecutive ds = Inr m \<and> (ds = [] \<longrightarrow> m = 0) \<and>
           (ds \<noteq> [] \<longrightarrow> 0 < m \<and> (\<exists>c. valid_date c \<and> run_at ds c m)) \<and>
           (\<forall>c k. valid_date c \<and> run_at ds c k \<longrightarrow> k \<le> m)"
proof (cases "ds = []")
  case True
  have "k \<le> 0" if "run_at [] c k" for c k
    using run_at_present[OF that] by auto
  with True show ?thesis by (auto simp: longest_consecutive_def)
next
  case False
  from assms(1) have "\<forall>d \<in> set ds. d \<in> set ds \<and> (\<exists>c. valid_date c \<and> d = isoformat c)"
    by simp
  from longest_loop_max[OF assms(2) this, of 0] obtain m where
    m: "longest_loop ds ds 0 = Inr m"
       "\<forall>c k. valid_date c \<and> isoformat c \<in> set ds \<and> run_at ds c k \<longrightarrow> k \<le> m"
       "m = 0 \<or> (\<exists>c. valid_date c \<and> run_at ds c m)"
    by blast
  have u: "k \<le> m" if "valid_date c" "run_at ds c k" for c k
  proof (cases k)
    case 0
    then show ?thesis by simp
  next
    case (Suc j)
    with that run_at_present[OF that(2)] m(2) show ?thesis by blast
  qed
  from False obtain d where "d \<in> set ds" by (cases ds) auto
  with assms(1) obtain c0 where c0: "valid_date c0" "isoformat c0 \<in> set ds" by auto
  then have "run_at ds c0 1" by (simp add: run_at_def)
  with u[OF c0(1)] have pos: "0 < m" by fastforce
  with m(3) have "\<exists>c. valid_date c \<and> run_at ds c m" by simp
  with False m(1) pos u show ?thesis by (auto simp: longest_consecutive_def)
qed

lemma current_streak_counts_back:
  assumes "valid_date today" and "isoformat (Date 1 1 1) \<notin> set ds"
  shows "\<exists>n. calculate_current_streak today ds = Inr n \<and>
           (\<forall>k<n. \<exists>c. days_back today k = Inr c \<and> isoformat c \<in> set ds) \<and>
           (\<exists>c. days_back today n = Inr c \<and> isoformat c \<notin> set ds) \<and>
           (isoformat today \<notin> set ds \<longrightarrow> n = 0)"
proof (cases "ds = []")
  case True
  then show ?thesis by (simp add: calculate_current_streak_def)
next
  case False
  from streak_loop_counts[OF assms(2,1), of 0] obtain n where
    n: "streak_loop ds today 0 = Inr n"
       "\<forall>k<n. \<exists>c. days_back today k = Inr c \<and> isoformat c \<in> set ds"
       "\<exists>c. days_back today n = Inr c \<and> isoformat c \<notin> set ds"
    by auto
  have "n = 0" if "isoformat today \<notin> set ds"
  proof (rule ccontr)
    assume "n \<noteq> 0"
    then have "0 < n" by simp
    with n(2) that show False by fastforce
  qed
  with False n show ?thesis by (auto simp: calculate_current_streak_def)
qed

lemma absent_today:
  "isoformat today \<notin> set ds \<Longrightarrow> calculate_current_streak today ds = Inr 0"
  by (simp add: calculate_current_streak_def)

section \<open>Rounding to a double, and to a tenth\<close>

lemma floor_numeral_div: "\<lfloor>numeral a / numeral b :: rat\<rfloor> = numeral a div numeral b"
  using floor_divide_of_int_eq[of "numeral a" "numeral b", where ?'a = rat] by simp

lemma ceiling_numeral_div: "\<lceil>numeral a / numeral b :: rat\<rceil> = - ((- numeral a) div numeral b)"
  using floor_divide_of_int_eq[of "- numeral a" "numeral b", where ?'a = rat]
  by (simp add: ceiling_def)

lemma bit_length_0: "bit_length 0 = 0"
  by (subst bit_length.simps) simp

lemma bit_length_pos: "0 < n \<Longrightarrow> bit_length n = Suc (bit_length (n div 2))"
  by (subst bit_length.simps) simp

lemma bit_length_bounds: "0 < n \<Longrightarrow> 2 ^ (bit_length n - 1) \<le> n \<and> n < 2 ^ bit_length n"
proof (induction n rule: bit_length.induct)
  case (1 n)
  show ?case
  proof (cases "n div 2 = 0")
    case True
    with "1.prems" have "n = 1" by (simp add: div_eq_0_iff)
    then show ?thesis by (simp add: bit_length_pos bit_length_0)
  next
    case False
    then have h: "0 < n div 2" by simp
    from "1.IH"[OF _ h] "1.prems" have
      ih: "2 ^ (bit_length (n div 2) - 1) \<le> n div 2" "n div 2 < 2 ^ bit_length (n div 2)"
      by simp_all
    have p: "0 < bit_length (n div 2)" by (simp add: bit_length_pos[OF h])
    then have s: "(2::nat) ^ bit_length (n div 2) = 2 * 2 ^ (bit_length (n div 2) - 1)"
      by (cases "bit_length (n div 2)") simp_all
    have lo: "2 ^ bit_length (n div 2) \<le> n"
      using ih(1) s by simp
    have hi: "n < 2 * 2 ^ bit_length (n div 2)"
      using ih(2) by simp
    from lo hi show ?thesis
      by (simp add: bit_length_pos[OF "1.prems"])
  qed
qed


lemma ilog2_lower:
  assumes "0 < x"
  shows "2 powi ilog2 x \<le> x"
proof (cases "1 \<le> x")
  case True
  define n where "n = nat \<lfloor>x\<rfloor>"
  from True have fx: "1 \<le> \<lfloor>x\<rfloor>" by simp
  then have n: "0 < n" "rat_of_nat n = of_int \<lfloor>x\<rfloor>" by (simp_all add: n_def)
  from bit_length_bounds[OF n(1)] have b: "2 ^ (bit_length n - 1) \<le> n" by simp
  have p: "0 < bit_length n" by (simp add: bit_length_pos[OF n(1)])
  then have "ilog2 x = int (bit_length n - 1)"
    using True by (simp add: ilog2_def n_def)
  then have "2 powi ilog2 x = (2::rat) ^ (bit_length n - 1)" by simp
  also have "\<dots> = rat_of_nat (2 ^ (bit_length n - 1))" by simp
  also have "\<dots> \<le> rat_of_nat n" using b by (simp only: of_nat_le_iff)
  also have "\<dots> \<le> x" by (simp add: n(2))
  finally show ?thesis .
next
  case False
  define n where "n = nat \<lceil>1 / x\<rceil>"
  define k where "k = bit_length (n - 1)"
  from False assms have "1 < 1 / x" by simp
  then have c: "2 \<le> \<lceil>1 / x\<rceil>" by linarith
  then have n1: "2 \<le> n" unfolding n_def by linarith
  from c have "0 \<le> \<lceil>1 / x\<rceil>" by linarith
  then have n2: "rat_of_nat n = of_int \<lceil>1 / x\<rceil>" unfolding n_def by simp
  note n = n1 n2
  then have "0 < n - 1" by simp
  from bit_length_bounds[OF this] have "n - 1 < 2 ^ k" by (simp add: k_def)
  then have "n \<le> 2 ^ k" by simp
  then have "rat_of_nat n \<le> rat_of_nat (2 ^ k)" by (simp only: of_nat_le_iff)
  then have a: "rat_of_nat n \<le> 2 ^ k" by simp
  have b: "1 / x \<le> rat_of_nat n" by (simp add: n(2))
  from b a have "1 / x \<le> 2 ^ k" by (rule order_trans)
  with assms have "1 \<le> 2 ^ k * x" by (simp add: field_simps)
  then have "1 / 2 ^ k \<le> x" by (simp add: field_simps)
  moreover have "ilog2 x = - int k"
    using False by (simp add: ilog2_def n_def k_def)
  ultimately show ?thesis
    by (simp add: power_int_minus_divide)
qed

lemma ilog2_upper:
  assumes "0 < x"
  shows "x < 2 powi (ilog2 x + 1)"
proof (cases "1 \<le> x")
  case True
  define n where "n = nat \<lfloor>x\<rfloor>"
  from True have fx: "1 \<le> \<lfloor>x\<rfloor>" by simp
  then have n: "0 < n" "rat_of_nat n = of_int \<lfloor>x\<rfloor>" by (simp_all add: n_def)
  from bit_length_bounds[OF n(1)] have "Suc n \<le> 2 ^ bit_length n" by simp
  then have "rat_of_nat (Suc n) \<le> rat_of_nat (2 ^ bit_length n)" by (simp only: of_nat_le_iff)
  then have b: "rat_of_nat n + 1 \<le> 2 ^ bit_length n" by simp
  have "x < of_int \<lfloor>x\<rfloor> + 1" by linarith
  with b n(2) have "x < 2 ^ bit_length n" by simp
  moreover have "ilog2 x + 1 = int (bit_length n)"
    using True by (simp add: ilog2_def n_def)
  ultimately show ?thesis by simp
next
  case False
  define n where "n = nat \<lceil>1 / x\<rceil>"
  define k where "k = bit_length (n - 1)"
  from False assms have "1 < 1 / x" by simp
  then have c: "2 \<le> \<lceil>1 / x\<rceil>" by linarith
  then have n1: "2 \<le> n" unfolding n_def by linarith
  from c have "0 \<le> \<lceil>1 / x\<rceil>" by linarith
  then have n2: "rat_of_nat n = of_int \<lceil>1 / x\<rceil>" unfolding n_def by simp
  note n = n1 n2
  then have pos: "0 < n - 1" by simp
  have kp: "0 < k" unfolding k_def by (subst bit_length_pos[OF pos]) simp
  from bit_length_bounds[OF pos] have "2 ^ (k - 1) \<le> n - 1" by (simp add: k_def)
  then have "rat_of_nat (2 ^ (k - 1)) \<le> rat_of_nat (n - 1)" by (simp only: of_nat_le_iff)
  moreover have "rat_of_nat (n - 1) = rat_of_nat n - 1" using n(1) by (simp add: of_nat_diff)
  moreover have "of_int \<lceil>1 / x\<rceil> - 1 < 1 / x" by linarith
  ultimately have "2 ^ (k - 1) < 1 / x" using n(2) by simp
  with assms have "2 ^ (k - 1) * x < 1" by (simp add: field_simps)
  then have "x < 1 / 2 ^ (k - 1)" by (simp add: field_simps)
  moreover have "ilog2 x + 1 = - int (k - 1)"
    using False kp by (simp add: ilog2_def n_def k_def)
  ultimately show ?thesis
    by (simp add: power_int_minus_divide)
qed

lemma round_half_even_error: "\<bar>of_int (round_half_even y) - y\<bar> \<le> 1 / 2"
proof -
  have "of_int \<lfloor>y\<rfloor> \<le> y" "y < of_int \<lfloor>y\<rfloor> + 1" by linarith+
  then show ?thesis
    by (auto simp: round_half_even_def Let_def)
qed

lemma round_half_even_nonneg: "0 \<le> y \<Longrightarrow> 0 \<le> round_half_even y"
proof -
  assume "0 \<le> y"
  then have "0 \<le> \<lfloor>y\<rfloor>" by simp
  then show ?thesis by (auto simp: round_half_even_def Let_def)
qed

lemma fl_nonneg: "0 \<le> x \<Longrightarrow> 0 \<le> fl x"
  by (simp add: fl_def round_half_even_nonneg)

lemma fl_error:
  assumes "0 \<le> x" and "x < 2 powi (e + 1)"
  shows "\<bar>fl x - x\<bar> \<le> 2 powi (e - 53)"
proof (cases "x = 0")
  case True
  then show ?thesis by (simp add: fl_def)
next
  case False
  with assms have pos: "0 < x" by simp
  define u :: rat where "u = 2 powi (ilog2 x - 52)"
  have u: "0 < u" by (simp add: u_def)
  from ilog2_lower[OF pos] assms(2) have "(2::rat) powi ilog2 x < 2 powi (e + 1)" by simp
  have le: "ilog2 x \<le> e"
  proof (rule ccontr)
    assume "\<not> ilog2 x \<le> e"
    then have "e + 1 \<le> ilog2 x" by simp
    then have "(2::rat) powi (e + 1) \<le> 2 powi ilog2 x"
      by (rule power_int_increasing) simp
    with \<open>(2::rat) powi ilog2 x < 2 powi (e + 1)\<close> show False by simp
  qed
  have "fl x - x = (of_int (round_half_even (x / u)) - x / u) * u"
    using u False by (simp add: fl_def u_def field_simps)
  then have "\<bar>fl x - x\<bar> = \<bar>of_int (round_half_even (x / u)) - x / u\<bar> * u"
    using u by (simp add: abs_mult)
  also have "\<dots> \<le> 1 / 2 * u"
    using round_half_even_error[of "x / u"] u by (simp only: mult_right_mono less_imp_le)
  also have "\<dots> = 2 powi (ilog2 x - 53)"
    by (simp add: u_def power_int_diff)
  also have "\<dots> \<le> 2 powi (e - 53)"
    using le by (simp add: power_int_increasing)
  finally show ?thesis .
qed

lemma rate_nearest_tenth:
  assumes "0 < c + s" and "c + s \<le> 2 ^ 40"
  shows "\<exists>R::int. completion_rate c s = fl (of_int R / 10) \<and> 0 \<le> R \<and>
           \<bar>of_int R - 1000 * rat_of_nat c / rat_of_nat (c + s)\<bar> \<le> 1 / 2"
proof -
  define t where "t = c + s"
  define q :: rat where "q = of_nat c / of_nat t"
  define x1 where "x1 = fl q"
  define x2 where "x2 = fl (x1 * 100)"
  define R where "R = round_half_even (x2 * 10)"
  from assms have t: "0 < t" "t \<le> 2 ^ 40" "c \<le> t" by (simp_all add: t_def)
  then have tr: "0 < rat_of_nat t" by simp
  have q0: "0 \<le> q" by (simp add: q_def)
  have "rat_of_nat c \<le> rat_of_nat t" using t(3) by (simp only: of_nat_le_iff)
  then have q1: "q \<le> 1" using tr by (simp add: q_def)
  have e1: "\<bar>x1 - q\<bar> \<le> 1 / 2 ^ 53"
    using fl_error[OF q0, of 0] q1 by (simp add: x1_def)
  have x10: "0 \<le> x1" unfolding x1_def by (rule fl_nonneg[OF q0])
  from e1 q1 have x11: "x1 \<le> 1 + 1 / 2 ^ 53" by linarith
  have a0: "0 \<le> x1 * 100" using x10 by simp
  have a1: "x1 * 100 < 2 powi (6 + 1)" using x11 by simp
  have e2: "\<bar>x2 - x1 * 100\<bar> \<le> 1 / 2 ^ 47"
    using fl_error[OF a0 a1] by (simp add: x2_def)
  have x20: "0 \<le> x2" unfolding x2_def by (rule fl_nonneg[OF a0])
  have R0: "0 \<le> R" unfolding R_def using x20 by (simp add: round_half_even_nonneg)
  have e3: "\<bar>of_int R - x2 * 10\<bar> \<le> 1 / 2"
    unfolding R_def by (rule round_half_even_error)
  define y where "y = 1000 * q"
  from e1 have "\<bar>x1 - q\<bar> \<le> 1 / 9007199254740992" by simp
  then have b1: "x1 - q \<le> 1 / 9007199254740992" "q - x1 \<le> 1 / 9007199254740992"
    by linarith+
  from e2 have "\<bar>x2 - x1 * 100\<bar> \<le> 1 / 140737488355328" by simp
  then have b2: "x2 - x1 * 100 \<le> 1 / 140737488355328"
    "x1 * 100 - x2 \<le> 1 / 140737488355328"
    by linarith+
  from b1 b2 have "x2 * 10 - 1000 * q \<le> 1640 / 9007199254740992"
    "1000 * q - x2 * 10 \<le> 1640 / 9007199254740992"
    by linarith+
  then have "\<bar>x2 * 10 - y\<bar> \<le> 1640 / 9007199254740992"
    unfolding y_def by linarith
  with e3 have near: "\<bar>of_int R - y\<bar> \<le> 1 / 2 + 1640 / 9007199254740992"
    by linarith
  define k where "k = 2 * int t * R - 2000 * int c"
  have ky: "of_int R - y = of_int k / (2 * rat_of_nat t)"
    using tr by (simp add: k_def y_def q_def field_simps)
  have res: "completion_rate c s = fl (of_int R / 10)"
    using assms(1) by (simp add: completion_rate_def py_round1_def Let_def R_def x2_def x1_def
        q_def t_def)
  have "\<bar>of_int R - y\<bar> \<le> 1 / 2"
  proof (rule ccontr)
    assume "\<not> \<bar>of_int R - y\<bar> \<le> 1 / 2"
    then have "1 / 2 < \<bar>of_int k\<bar> / (2 * rat_of_nat t)"
      using tr by (simp add: ky abs_divide) 
    then have "rat_of_nat t < \<bar>of_int k\<bar>"
      using tr by (simp add: field_simps)
    then have "rat_of_int (int t) < rat_of_int \<bar>k\<bar>" by simp
    then have "int t < \<bar>k\<bar>" by (simp only: of_int_less_iff)
    then have "int t + 1 \<le> \<bar>k\<bar>" by simp
    then have "rat_of_int (int t + 1) \<le> rat_of_int \<bar>k\<bar>" by (simp only: of_int_le_iff)
    then have "rat_of_nat t + 1 \<le> \<bar>of_int k\<bar>" by simp
    then have "(rat_of_nat t + 1) / (2 * rat_of_nat t) \<le> \<bar>of_int R - y\<bar>"
      using tr by (simp add: ky abs_divide divide_right_mono)
    moreover have "(rat_of_nat t + 1) / (2 * rat_of_nat t) = 1 / 2 + 1 / (2 * rat_of_nat t)"
      using tr by (simp add: field_simps)
    moreover have "1 / 2199023255552 \<le> 1 / (2 * rat_of_nat t)"
    proof -
      have "rat_of_nat t \<le> rat_of_nat (2 ^ 40)" using t(2) by (simp only: of_nat_le_iff)
      then have "2 * rat_of_nat t \<le> 2199023255552" by simp
      with tr show ?thesis by (intro frac_le) simp_all
    qed
    ultimately have "1 / 2 + 1 / 2199023255552 \<le> \<bar>of_int R - y\<bar>" by linarith
    with near show False by linarith
  qed
  with res R0 show ?thesis
    unfolding y_def q_def t_def by auto
qed

lemma days_back_numeral:
  "days_back c (numeral k) =
     (case date_minus_day c of Inl e \<Rightarrow> Inl e | Inr c' \<Rightarrow> days_back c' (pred_numeral k))"
  by (simp add: numeral_eq_Suc)

lemma rate_near_double:
  assumes "0 \<le> R" and "R \<le> 1000"
  shows "\<bar>fl (rat_of_int R / 10) - of_int R / 10\<bar> \<le> 1 / 2 ^ 47"
proof -
  from assms have "0 \<le> rat_of_int R / 10" "rat_of_int R / 10 < 2 powi (6 + 1)" by simp_all
  from fl_error[OF this] show ?thesis by simp
qed

section \<open>The date of a stored timestamp\<close>

lemma digit_char_digit_val:
  assumes "digit_val c = Some v"
  shows "v < 10" "digit_char v = c"
proof -
  from assms have b: "48 \<le> (of_char c :: nat)" "(of_char c :: nat) \<le> 57"
    and v: "v = of_char c - 48"
    by (auto simp: digit_val_def less_eq_char_def split: if_splits)
  then show lt: "v < 10" by simp
  have "(of_char (''0123456789'' ! k) :: nat) = 48 + k" if "k < 10" for k
    using small_digit[OF that] by (elim disjE) simp_all
  from this[OF lt] b v lt have "(of_char (digit_char v) :: nat) = of_char c"
    by (simp add: digit_char_def)
  then show "digit_char v = c" by (simp only: of_char_eq_iff)
qed

lemma parse_two_chars:
  assumes "parse_digits acc (a # b # rest) = Some n"
  shows "\<exists>v. v < 100 \<and> two_digits v = [a, b] \<and> parse_digits (100 * acc + v) rest = Some n"
proof -
  from assms obtain va vb where d: "digit_val a = Some va" "digit_val b = Some vb"
    and n: "parse_digits (10 * (10 * acc + va) + vb) rest = Some n"
    by (auto split: option.splits)
  note a = digit_char_digit_val[OF d(1)] and b = digit_char_digit_val[OF d(2)]
  define v where "v = 10 * va + vb"
  from a(1) b(1) have lt: "v < 100" and dv: "v div 10 = va"
    by (simp_all add: v_def)
  from b(1) have "digit_char v = digit_char vb"
    by (simp add: digit_char_def v_def)
  with dv a(2) b(2) have td: "two_digits v = [a, b]"
    by (simp add: two_digits_def)
  have "10 * (10 * acc + va) + vb = 100 * acc + v" by (simp add: v_def)
  with n have "parse_digits (100 * acc + v) rest = Some n" by (simp only:)
  with lt td show ?thesis by blast
qed

lemma isoformat_fromisoformat:
  assumes "fromisoformat s = Inr d"
  shows "isoformat d = s"
proof -
  from assms have "length s = 10"
    by (auto simp: fromisoformat_def split: if_splits)
  then obtain a b c e f g h i j k where s: "s = [a, b, c, e, f, g, h, i, j, k]"
    by (auto simp: eval_nat_numeral length_Suc_conv)
  from assms obtain y m dd where p: "parse_digits 0 [a, b, c, e] = Some y"
    "parse_digits 0 [g, h] = Some m" "parse_digits 0 [j, k] = Some dd"
    and sep: "f = CHR ''-''" "i = CHR ''-''" and d: "d = Date y m dd"
    unfolding s fromisoformat_def
    by (simp del: parse_digits.simps split: if_splits option.splits)
  from parse_two_chars[OF p(1)] obtain v1 where
    v1: "v1 < 100" "two_digits v1 = [a, b]" "parse_digits v1 [c, e] = Some y" by auto
  from parse_two_chars[OF v1(3)] obtain v2 where
    v2: "v2 < 100" "two_digits v2 = [c, e]" "y = 100 * v1 + v2" by auto
  from parse_two_chars[OF p(2)] obtain vm where
    vm: "two_digits vm = [g, h]" "m = vm" by auto
  from parse_two_chars[OF p(3)] obtain vd where
    vd: "two_digits vd = [j, k]" "dd = vd" by auto
  from v2(1,3) have "y div 100 = v1" "y mod 100 = v2" by simp_all
  with v1(2) v2(2) vm vd sep show ?thesis
    unfolding s d by simp
qed

lemma digit_char_not_T: "digit_char n \<noteq> CHR ''T''"
proof -
  have "n mod 10 < 10" by simp
  from small_digit[OF this] show ?thesis
    unfolding digit_char_def by (elim disjE) simp_all
qed

lemma day_of_isoformat: "day_of (isoformat d @ CHR ''T'' # rest) = isoformat d"
  by (cases d) (simp add: day_of_def two_digits_def digit_char_not_T)

lemma exact_timestamp_date:
  assumes "exact_timestamp ts"
  shows "sql_date ts = Some (day_of ts)"
proof -
  from assms obtain t where t: "parse_timestamp ts = Some t" "\<not> rounds_up t"
    by (auto simp: exact_timestamp_def split: option.splits)
  from t(1) have len: "10 < length ts" and sep: "ts ! 10 = CHR ''T''"
    and d: "fromisoformat (take 10 ts) = Inr (dt_date t)"
    by (auto simp: parse_timestamp_def split: if_splits sum.splits option.splits)
  from id_take_nth_drop[OF len]
  have "ts = isoformat (dt_date t) @ CHR ''T'' # drop (Suc 10) ts"
    by (simp only: isoformat_fromisoformat[OF d] sep)
  then have "day_of ts = day_of (isoformat (dt_date t) @ CHR ''T'' # drop (Suc 10) ts)"
    by (rule arg_cong)
  then have "day_of ts = isoformat (dt_date t)"
    by (simp only: day_of_isoformat)
  with t show ?thesis
    by (simp add: sql_date_def)
qed

lemma rate_window:
  assumes "\<forall>r \<in> set (habit_logs s). exact_timestamp (timestamp r)"
  shows "filter (\<lambda>r. (case sql_date (timestamp r) of None \<Rightarrow> False | Some day \<Rightarrow> lo \<le> day) \<and>
                     Q r) (habit_logs s) =
         filter (\<lambda>r. lo \<le> day_of (timestamp r) \<and> Q r) (habit_logs s)"
  using assms by (intro filter_cong refl) (simp add: exact_timestamp_date)

text \<open>
  The rounding at work: a row stamped in the last microsecond of 2023 has the date
  2024-01-01, and one stamped a quarter of a second into the last second has not.
\<close>

lemma sql_date_last_half_millisecond:
  "sql_date ''2023-12-31T23:59:59.999999'' = Some ''2024-01-01''"
  "sql_date ''2023-12-31T23:59:59.250000'' = Some ''2023-12-31''"
  "sql_date ''2024-01-28T23:59:59.999999'' = Some ''2024-01-28''"
  "sql_date ''9999-12-31T23:59:59.999999'' = None"
  "sql_date ''2024-01-05T10:00:00'' = Some ''2024-01-05''"
  by (simp_all add: sql_date_def parse_timestamp_def rounds_up_def date_simps)

text \<open>
  With that row in the log the query counts eight completions, not seven: the row of
  2023-12-31 is inside the window that begins on 2024-01-01.
\<close>

lemma boundary_row_counted:
  "completion_rate_30d (Date 2024 1 30) boundary_state = Inr (completion_rate 8 3)"
proof -
  have d: "days_back (Date 2024 1 30) 29 = Inr (Date 2024 1 1)"
    by (simp add: days_back_numeral)
  have i: "isoformat (Date 2024 1 1) = ''2024-01-01''"
    by (simp add: iso_simps)
  have r: "filter (\<lambda>r. case sql_date (timestamp r) of None \<Rightarrow> False
                        | Some day \<Rightarrow> ''2024-01-01'' \<le> day) (habit_logs boundary_state) =
           habit_logs boundary_state"
    by (simp add: boundary_state_def month_state_def log_row_def empty_state_def sql_date_def
        parse_timestamp_def rounds_up_def date_simps)
  have c: "length (filter (\<lambda>r. event_type r = ''complete'') (habit_logs boundary_state)) = 8"
    "length (filter (\<lambda>r. event_type r = ''skip'') (habit_logs boundary_state)) = 3"
    by (simp_all add: boundary_state_def month_state_def log_row_def empty_state_def)
  show ?thesis
    by (simp only: completion_rate_30d_def d i r c Let_def sum.case)
qed

section \<open>The rollup agrees with the log\<close>

text \<open>
  C1.  \<open>agg_consistent\<close> says that, for every habit and every day, the \<^verbatim>\<open>completions\<close>
  counter of \<^verbatim>\<open>daily_agg\<close> equals the number of rows of \<^verbatim>\<open>habit_logs\<close> of that habit
  with event type \<^verbatim>\<open>complete\<close> whose timestamp falls on that day, and the \<^verbatim>\<open>skips\<close>
  counter equals the number of \<^verbatim>\<open>skip\<close> rows (a key with no bucket counts as zero).
  From a state where this holds and the rowids are distinct (the empty database is
  one), any sequence of \<^verbatim>\<open>log_event\<close> and \<^verbatim>\<open>undo_last_event\<close> calls, on one habit or on
  several, valid or refused, ends in a state where it holds.  The zero floor of the
  decrement is never reached on the way: the row that undo deletes is itself counted.
\<close>

theorem aggregate_consistency:
  assumes "rowids_distinct s" and "agg_consistent s"
  shows "agg_consistent (run ops s)"
  using run_invariant[OF assms] by simp

theorem aggregate_consistency_witness:
  "rowids_distinct empty_state \<and> agg_consistent empty_state \<and>
   agg_consistent (run sample_ops empty_state) \<and>
   map log_id (habit_logs (run sample_ops empty_state)) = [1, 3] \<and>
   daily_agg (run sample_ops empty_state) (1, ''2024-01-05'') =
     Some \<lparr>completions = 1, skips = 0\<rparr>"
proof -
  have e: "rowids_distinct empty_state" "agg_consistent empty_state"
    by (simp_all add: rowids_distinct_def agg_consistent_def empty_state_def counter_def
        count_events_def)
  have t: "agg_consistent (run sample_ops empty_state)"
    by (rule aggregate_consistency[OF e])
  have v: "map log_id (habit_logs (run sample_ops empty_state)) = [1, 3]"
    "daily_agg (run sample_ops empty_state) (1, ''2024-01-05'') =
       Some \<lparr>completions = 1, skips = 0\<rparr>"
    by (simp_all add: sample_ops_def exec_simps)
  from e t v show ?thesis by blast
qed

section \<open>What one call does\<close>





section \<open>Undo with nothing to undo\<close>

text \<open>
  C4.  When the request names a habit (a non-zero \<^verbatim>\<open>habit_id\<close> that fits a 64-bit
  signed integer, which is what the \<^verbatim>\<open>SELECT\<close> can bind) and no row of
  \<^verbatim>\<open>habit_logs\<close> for that habit has a timestamp at or after the cutoff, the reply is
  404 with status \<^verbatim>\<open>no_recent_event\<close> and the state returned is the state given: no row
  of \<^verbatim>\<open>habit_logs\<close> and no counter of \<^verbatim>\<open>daily_agg\<close> has changed.
\<close>

theorem undo_no_recent_event:
  assumes "hid \<noteq> 0" and "sqlite_int64 hid"
    and "\<forall>r \<in> set (habit_logs s). habit_id r = hid \<longrightarrow> \<not> cutoff \<le> timestamp r"
  shows "undo_last_event (Some hid) cutoff s = ((404, Status ''no_recent_event''), s)"
proof -
  from assms(3) have "filter (\<lambda>r. habit_id r = hid \<and> cutoff \<le> timestamp r) (habit_logs s) = []"
    by (auto simp: filter_empty_conv)
  with assms(1,2) show ?thesis
    by (simp add: undo_last_event_def)
qed

theorem undo_no_recent_event_witness:
  "habit_logs drifted_state \<noteq> [] \<and>
   undo_last_event (Some 1) ''2024-01-05T10:05:00'' drifted_state =
     ((404, Status ''no_recent_event''), drifted_state)"
proof -
  have n: "habit_logs drifted_state \<noteq> []"
    by (simp add: drifted_state_def)
  have h: "(1::int) \<noteq> 0" by simp
  have b: "sqlite_int64 1" by (simp add: sqlite_int64_def)
  have w: "\<forall>r \<in> set (habit_logs drifted_state).
             habit_id r = 1 \<longrightarrow> \<not> ''2024-01-05T10:05:00'' \<le> timestamp r"
    by (simp add: drifted_state_def)
  from n undo_no_recent_event[OF h b w] show ?thesis by blast
qed

text \<open>
  C5.  Non-negative counters stay non-negative: from a state in which no counter of
  \<^verbatim>\<open>daily_agg\<close> is below zero, every sequence of \<^verbatim>\<open>log_event\<close> and \<^verbatim>\<open>undo_last_event\<close>
  calls ends in such a state.  A counter that reads zero still reads zero after any undo
  (the decrement of a zero counter leaves it at zero), and \<^verbatim>\<open>log_event\<close> lowers no
  counter.
\<close>

theorem counters_never_negative:
  "(agg_nonneg s \<longrightarrow> agg_nonneg (run ops s)) \<and>
   (counter completions h d s = 0 \<longrightarrow>
      counter completions h d (snd (undo_last_event rq cutoff s)) = 0) \<and>
   (counter skips h d s = 0 \<longrightarrow> counter skips h d (snd (undo_last_event rq cutoff s)) = 0) \<and>
   counter completions h d s \<le> counter completions h d (snd (log_event data ts u s)) \<and>
   counter skips h d s \<le> counter skips h d (snd (log_event data ts u s))"
proof (intro conjI impI)
  show "agg_nonneg (run ops s)" if "agg_nonneg s"
    using that by (rule run_nonneg)
  show "counter completions h d (snd (undo_last_event rq cutoff s)) = 0"
    if "counter completions h d s = 0"
    using that by (simp add: undo_keeps_zero)
  show "counter skips h d (snd (undo_last_event rq cutoff s)) = 0" if "counter skips h d s = 0"
    using that by (simp add: undo_keeps_zero)
  show "counter completions h d s \<le> counter completions h d (snd (log_event data ts u s))"
    by (simp add: log_event_never_lowers)
  show "counter skips h d s \<le> counter skips h d (snd (log_event data ts u s))"
    by (simp add: log_event_never_lowers)
qed

theorem counters_never_negative_witness:
  "agg_nonneg drifted_state \<and>
   agg_nonneg (run [Undo (Some 1) ''2024-01-05T09:59:30''] drifted_state) \<and>
   counter completions 1 ''2024-01-05'' drifted_state = 0 \<and>
   habit_logs (snd (undo_last_event (Some 1) ''2024-01-05T09:59:30'' drifted_state)) = [] \<and>
   counter completions 1 ''2024-01-05''
     (snd (undo_last_event (Some 1) ''2024-01-05T09:59:30'' drifted_state)) = 0"
proof -
  have a: "agg_nonneg drifted_state"
    by (simp add: agg_nonneg_def drifted_state_def)
  have z: "counter completions 1 ''2024-01-05'' drifted_state = 0"
    by (simp add: counter_def drifted_state_def)
  have l: "habit_logs (snd (undo_last_event (Some 1) ''2024-01-05T09:59:30'' drifted_state)) = []"
    by (simp add: drifted_state_def exec_simps)
  note t = counters_never_negative[of drifted_state "[Undo (Some 1) ''2024-01-05T09:59:30'']" 1
      "''2024-01-05''" "Some 1" "''2024-01-05T09:59:30''" "request 1 ''complete''" "[]" "[]"]
  from t a have r: "agg_nonneg (run [Undo (Some 1) ''2024-01-05T09:59:30''] drifted_state)"
    by (elim conjE) (erule mp)
  from t z have k: "counter completions 1 ''2024-01-05''
     (snd (undo_last_event (Some 1) ''2024-01-05T09:59:30'' drifted_state)) = 0"
    by (elim conjE) (erule mp)
  show ?thesis
    by (intro conjI a r z l k)
qed

section \<open>Streak lengths\<close>

text \<open>
  C6.  \<^verbatim>\<open>calculate_current_streak\<close>: for a valid \<open>today\<close> (and a list without the first
  day of year 1, where stepping back raises) the result is the number \<open>n\<close> such that
  today and the \<open>n - 1\<close> days before it all have their text in the list and the day
  \<open>n\<close> days before today has not; it is 0 when today's text is not in the list, and 0
  for the empty list.  \<^verbatim>\<open>longest_consecutive\<close>: for a list of ISO day texts (without the
  last day of year 9999, where stepping forward raises) the result \<open>m\<close> is the length
  of a run of consecutive present days, no run of consecutive present days is longer,
  and it is 0 for the empty list.  For the days 2024-01-01, 2024-01-02, 2024-01-03,
  2024-01-05 and today 2024-01-05 the current streak is 1 and the longest is 3.
\<close>

theorem streaks:
  "(valid_date today \<and> isoformat (Date 1 1 1) \<notin> set ds \<longrightarrow>
      (\<exists>n. calculate_current_streak today ds = Inr n \<and>
         (\<forall>k<n. \<exists>c. days_back today k = Inr c \<and> isoformat c \<in> set ds) \<and>
         (\<exists>c. days_back today n = Inr c \<and> isoformat c \<notin> set ds))) \<and>
   (isoformat today \<notin> set ds \<longrightarrow> calculate_current_streak today ds = Inr 0) \<and>
   calculate_current_streak today [] = Inr 0 \<and>
   ((\<forall>d \<in> set ds. \<exists>c. valid_date c \<and> d = isoformat c) \<and>
    isoformat (Date 9999 12 31) \<notin> set ds \<longrightarrow>
      (\<exists>m. longest_consecutive ds = Inr m \<and>
         (ds \<noteq> [] \<longrightarrow> 0 < m \<and> (\<exists>c. valid_date c \<and> run_at ds c m)) \<and>
         (\<forall>c k. valid_date c \<and> run_at ds c k \<longrightarrow> k \<le> m))) \<and>
   longest_consecutive [] = Inr 0 \<and>
   calculate_current_streak (Date 2024 1 5) spec_days = Inr 1 \<and>
   longest_consecutive spec_days = Inr 3"
proof (intro conjI impI)
  show "\<exists>n. calculate_current_streak today ds = Inr n \<and>
         (\<forall>k<n. \<exists>c. days_back today k = Inr c \<and> isoformat c \<in> set ds) \<and>
         (\<exists>c. days_back today n = Inr c \<and> isoformat c \<notin> set ds)"
    if "valid_date today \<and> isoformat (Date 1 1 1) \<notin> set ds"
    using current_streak_counts_back[of today ds] that by blast
  show "calculate_current_streak today ds = Inr 0" if "isoformat today \<notin> set ds"
    using that by (rule absent_today)
  show "calculate_current_streak today [] = Inr 0"
    by (simp add: calculate_current_streak_def)
  show "\<exists>m. longest_consecutive ds = Inr m \<and>
         (ds \<noteq> [] \<longrightarrow> 0 < m \<and> (\<exists>c. valid_date c \<and> run_at ds c m)) \<and>
         (\<forall>c k. valid_date c \<and> run_at ds c k \<longrightarrow> k \<le> m)"
    if "(\<forall>d \<in> set ds. \<exists>c. valid_date c \<and> d = isoformat c) \<and>
        isoformat (Date 9999 12 31) \<notin> set ds"
    using longest_consecutive_longest_run[of ds] that by blast
  show "longest_consecutive [] = Inr 0"
    by (simp add: longest_consecutive_def)
  show "calculate_current_streak (Date 2024 1 5) spec_days = Inr 1"
    by (simp add: spec_days_def calculate_current_streak_def date_simps)
  show "longest_consecutive spec_days = Inr 3"
    by (simp add: spec_days_def longest_consecutive_def date_simps)
qed

theorem streaks_witness:
  "valid_date (Date 2024 3 1) \<and>
   calculate_current_streak (Date 2024 3 1) leap_days = Inr 3 \<and>
   days_back (Date 2024 3 1) 3 = Inr (Date 2024 2 27) \<and>
   longest_consecutive leap_days = Inr 3 \<and>
   (\<exists>c. valid_date c \<and> run_at leap_days c 3) \<and>
   \<not> (\<exists>c. valid_date c \<and> run_at leap_days c 4)"
proof -
  have v: "valid_date (Date 2024 3 1)"
    by (simp add: date_simps)
  have lo: "isoformat (Date 1 1 1) \<notin> set leap_days"
    and hi: "isoformat (Date 9999 12 31) \<notin> set leap_days"
    by (simp_all add: leap_days_def date_simps)
  have canon: "\<forall>d \<in> set leap_days. \<exists>c. valid_date c \<and> d = isoformat c"
  proof -
    have "\<exists>c. valid_date c \<and> ''2024-03-01'' = isoformat c"
      by (rule exI[of _ "Date 2024 3 1"]) (simp add: date_simps)
    moreover have "\<exists>c. valid_date c \<and> ''2024-02-28'' = isoformat c"
      by (rule exI[of _ "Date 2024 2 28"]) (simp add: date_simps)
    moreover have "\<exists>c. valid_date c \<and> ''2023-12-31'' = isoformat c"
      by (rule exI[of _ "Date 2023 12 31"]) (simp add: date_simps)
    moreover have "\<exists>c. valid_date c \<and> ''2024-02-29'' = isoformat c"
      by (rule exI[of _ "Date 2024 2 29"]) (simp add: date_simps)
    moreover have "\<exists>c. valid_date c \<and> ''2024-01-01'' = isoformat c"
      by (rule exI[of _ "Date 2024 1 1"]) (simp add: date_simps)
    ultimately show ?thesis
      by (simp add: leap_days_def)
  qed
  have cs: "calculate_current_streak (Date 2024 3 1) leap_days = Inr 3"
    by (simp add: leap_days_def calculate_current_streak_def date_simps)
  have db: "days_back (Date 2024 3 1) 3 = Inr (Date 2024 2 27)"
    by (simp add: numeral_3_eq_3 date_simps)
  have lc: "longest_consecutive leap_days = Inr 3"
    by (simp add: leap_days_def longest_consecutive_def date_simps)
  note t = streaks[of "Date 2024 3 1" leap_days, THEN conjunct2, THEN conjunct2,
      THEN conjunct2, THEN conjunct1, THEN mp, OF conjI[OF canon hi]]
  from t obtain m where
    m: "longest_consecutive leap_days = Inr m"
       "leap_days \<noteq> [] \<longrightarrow> 0 < m \<and> (\<exists>c. valid_date c \<and> run_at leap_days c m)"
       "\<forall>c k. valid_date c \<and> run_at leap_days c k \<longrightarrow> k \<le> m"
    by (elim exE conjE)
  from m(1) lc have m3: "m = 3" by simp
  have ne: "leap_days \<noteq> []" by (simp add: leap_days_def)
  from m(2) ne m3 have r3: "\<exists>c. valid_date c \<and> run_at leap_days c 3" by simp
  have r4: "\<not> (\<exists>c. valid_date c \<and> run_at leap_days c 4)"
  proof
    assume "\<exists>c. valid_date c \<and> run_at leap_days c 4"
    then obtain c where "valid_date c \<and> run_at leap_days c 4" ..
    with m(3) have "(4::nat) \<le> m" by (elim allE impE)
    with m3 show False by simp
  qed
  show ?thesis
    by (intro conjI v cs db lc r3 r4)
qed

section \<open>The 30-day completion rate\<close>

text \<open>
  C7.  When every timestamp of the log has the stored form and none lies in the last half
  millisecond of a day after the 28th (the spec's timestamps have second precision, and
  all of these do), the rate reported is \<open>completion_rate\<close> of the number of
  \<^verbatim>\<open>complete\<close> rows and the number of \<^verbatim>\<open>skip\<close> rows whose day, the text before the
  \<^verbatim>\<open>T\<close>, is the day 29 days before today or later: the 30 days that end today.  With
  no such row it is 0.  With \<open>c\<close> completes and \<open>k\<close> skips, at least one and at most
  \<open>2 ^ 40\<close> in all, it is the double nearest to a one-decimal number \<open>R / 10\<close> that
  lies within one twentieth of \<open>c / (c + k) * 100\<close>: the exact rate rounded to one
  decimal place, to either neighbour when the exact rate lies midway between two, and
  that double is within \<open>1 / 2 ^ 47\<close> of \<open>R / 10\<close>.  Seven completes and three skips
  give 70.
\<close>

theorem completion_rate_rounds:
  "(days_back today 29 = Inr d \<and>
    (\<forall>r \<in> set (habit_logs s). exact_timestamp (timestamp r)) \<longrightarrow>
      completion_rate_30d today s =
        Inr (completion_rate
               (length (filter (\<lambda>r. isoformat d \<le> day_of (timestamp r) \<and>
                                     event_type r = ''complete'') (habit_logs s)))
               (length (filter (\<lambda>r. isoformat d \<le> day_of (timestamp r) \<and>
                                     event_type r = ''skip'') (habit_logs s))))) \<and>
   (0 < c + k \<and> c + k \<le> 2 ^ 40 \<longrightarrow>
      (\<exists>R::int. completion_rate c k = fl (of_int R / 10) \<and>
         \<bar>of_int R / 10 - rat_of_nat c / rat_of_nat (c + k) * 100\<bar> \<le> 1 / 20 \<and>
         \<bar>completion_rate c k - of_int R / 10\<bar> \<le> 1 / 2 ^ 47)) \<and>
   completion_rate 0 0 = 0 \<and>
   completion_rate 7 3 = 70"
proof (intro conjI impI)
  show "completion_rate_30d today s =
        Inr (completion_rate
               (length (filter (\<lambda>r. isoformat d \<le> day_of (timestamp r) \<and>
                                     event_type r = ''complete'') (habit_logs s)))
               (length (filter (\<lambda>r. isoformat d \<le> day_of (timestamp r) \<and>
                                     event_type r = ''skip'') (habit_logs s))))"
    if h: "days_back today 29 = Inr d \<and>
           (\<forall>r \<in> set (habit_logs s). exact_timestamp (timestamp r))"
  proof -
    from h have x: "\<forall>r \<in> set (habit_logs s). exact_timestamp (timestamp r)" by simp
    from h have "completion_rate_30d today s =
        Inr (completion_rate
               (length (filter (\<lambda>r. (case sql_date (timestamp r) of
                                        None \<Rightarrow> False
                                      | Some day \<Rightarrow> isoformat d \<le> day) \<and>
                                     event_type r = ''complete'') (habit_logs s)))
               (length (filter (\<lambda>r. (case sql_date (timestamp r) of
                                        None \<Rightarrow> False
                                      | Some day \<Rightarrow> isoformat d \<le> day) \<and>
                                     event_type r = ''skip'') (habit_logs s))))"
      by (simp add: completion_rate_30d_def Let_def conj_commute)
    then show ?thesis
      by (simp only: rate_window[OF x])
  qed
  show "\<exists>R::int. completion_rate c k = fl (of_int R / 10) \<and>
         \<bar>of_int R / 10 - rat_of_nat c / rat_of_nat (c + k) * 100\<bar> \<le> 1 / 20 \<and>
         \<bar>completion_rate c k - of_int R / 10\<bar> \<le> 1 / 2 ^ 47"
    if h: "0 < c + k \<and> c + k \<le> 2 ^ 40"
  proof -
    from h rate_nearest_tenth[of c k] obtain R :: int where
      R: "completion_rate c k = fl (of_int R / 10)" "0 \<le> R"
         "\<bar>of_int R - 1000 * rat_of_nat c / rat_of_nat (c + k)\<bar> \<le> 1 / 2"
      by blast
    define q where "q = rat_of_nat c / rat_of_nat (c + k)"
    have "rat_of_nat c \<le> rat_of_nat (c + k)" by (simp only: of_nat_le_iff le_add1)
    moreover from h have "0 < rat_of_nat (c + k)" by (simp only: of_nat_0_less_iff)
    ultimately have q1: "q \<le> 1" unfolding q_def by (simp only: divide_le_eq_1_pos)
    from R(3) have n: "\<bar>rat_of_int R - 1000 * q\<bar> \<le> 1 / 2" by (simp add: q_def)
    with q1 have "rat_of_int R < 1001" by linarith
    then have "rat_of_int R < rat_of_int 1001" by simp
    then have "R < 1001" by (simp only: of_int_less_iff)
    then have R1: "R \<le> 1000" by simp
    from n have a: "\<bar>of_int R / 10 - q * 100\<bar> \<le> 1 / 20" by linarith
    from rate_near_double[OF R(2) R1] R(1) a show ?thesis
      unfolding q_def by auto
  qed
  show "completion_rate 0 0 = 0"
    by (simp add: completion_rate_def)
  show "completion_rate 7 3 = 70"
    by (simp add: float_simps floor_numeral_div ceiling_numeral_div)
qed

theorem completion_rate_rounds_witness:
  "days_back (Date 2024 1 30) 29 = Inr (Date 2024 1 1) \<and>
   length (habit_logs month_state) = 12 \<and>
   filter (\<lambda>r. \<not> exact_timestamp (timestamp r)) (habit_logs month_state) = [] \<and>
   map (\<lambda>r. (event_type r, timestamp r))
     (filter (\<lambda>r. \<not> ''2024-01-01'' \<le> day_of (timestamp r)) (habit_logs month_state)) =
     [(''complete'', ''2023-12-31T23:59:59.250000'')] \<and>
   completion_rate_30d (Date 2024 1 30) month_state = Inr 70"
proof -
  have d: "days_back (Date 2024 1 30) 29 = Inr (Date 2024 1 1)"
    by (simp add: days_back_numeral)
  have l: "length (habit_logs month_state) = 12"
    by (simp add: month_state_def)
  have i: "isoformat (Date 2024 1 1) = ''2024-01-01''"
    by (simp add: iso_simps)
  have x: "\<forall>r \<in> set (habit_logs month_state). exact_timestamp (timestamp r)"
    by (simp add: month_state_def log_row_def exact_timestamp_def parse_timestamp_def
        rounds_up_def date_simps)
  then have e: "filter (\<lambda>r. \<not> exact_timestamp (timestamp r)) (habit_logs month_state) = []"
    by (simp add: filter_empty_conv)
  have o: "map (\<lambda>r. (event_type r, timestamp r))
     (filter (\<lambda>r. \<not> ''2024-01-01'' \<le> day_of (timestamp r)) (habit_logs month_state)) =
     [(''complete'', ''2023-12-31T23:59:59.250000'')]"
    by (simp add: month_state_def log_row_def day_of_def)
  have c: "length (filter (\<lambda>r. ''2024-01-01'' \<le> day_of (timestamp r) \<and>
                     event_type r = ''complete'') (habit_logs month_state)) = 7"
    by (simp add: month_state_def log_row_def day_of_def)
  have k: "length (filter (\<lambda>r. ''2024-01-01'' \<le> day_of (timestamp r) \<and>
                     event_type r = ''skip'') (habit_logs month_state)) = 3"
    by (simp add: month_state_def log_row_def day_of_def)
  note t = completion_rate_rounds[of "Date 2024 1 30" "Date 2024 1 1" month_state 7 3]
  note t1 = t[THEN conjunct1, THEN mp, OF conjI, OF d x]
  note t4 = t[THEN conjunct2, THEN conjunct2, THEN conjunct2]
  have r: "completion_rate_30d (Date 2024 1 30) month_state = Inr 70"
    unfolding t1 i c k t4 by (rule refl)
  show ?thesis
    by (intro conjI d l e o r)
qed

text \<open>
  C8, as the code has it.  The query orders by timestamp alone.  With two rows of habit 1
  carrying the same timestamp, rowid 1 a \<^verbatim>\<open>complete\<close> and rowid 2 a \<^verbatim>\<open>skip\<close>, the status
  is \<^verbatim>\<open>complete\<close>: the row with the smaller identifier.
\<close>

theorem latest_status_counterexample:
  "map (\<lambda>r. (log_id r, habit_id r, event_type r, timestamp r)) (habit_logs tie_state) =
     [(1, 1, ''complete'', ''2024-01-05T10:00:00''), (2, 1, ''skip'', ''2024-01-05T10:00:00'')] \<and>
   get_habit_status_today 1 ''2024-01-05'' tie_state = (200, Status ''complete'')"
  by (simp add: tie_state_def get_habit_status_today_def like_simps sqlite_int64_def)

text \<open>
  C8, amended.  For a habit identifier that the route can match and SQLite can bind (not
  negative, below \<open>2 ^ 63\<close>), a day text of digits and hyphens and a log in rowid order: when no
  row of the habit has a timestamp that begins with the day, the status is \<^verbatim>\<open>none\<close>;
  otherwise it is the event type of a row of the habit on that day whose timestamp no
  other such row exceeds, and among the rows that share that timestamp it is the one
  with the smallest identifier.
\<close>

theorem latest_status:
  assumes "set today \<subseteq> set ''0123456789-''" and "rowid_order s"
    and "0 \<le> hid" and "sqlite_int64 hid"
  shows "((\<forall>r \<in> set (habit_logs s).
            \<not> (habit_id r = hid \<and> take (length today) (timestamp r) = today)) \<longrightarrow>
          get_habit_status_today hid today s = (200, Status ''none'')) \<and>
         ((\<exists>r \<in> set (habit_logs s).
            habit_id r = hid \<and> take (length today) (timestamp r) = today) \<longrightarrow>
          (\<exists>row \<in> set (habit_logs s).
             habit_id row = hid \<and> take (length today) (timestamp row) = today \<and>
             get_habit_status_today hid today s = (200, Status (event_type row)) \<and>
             (\<forall>r \<in> set (habit_logs s).
                habit_id r = hid \<and> take (length today) (timestamp r) = today \<longrightarrow>
                timestamp r \<le> timestamp row \<and>
                (timestamp r = timestamp row \<longrightarrow> log_id row \<le> log_id r))))"
proof -
  let ?P = "\<lambda>r. habit_id r = hid \<and> sql_like (today @ ''%'') (timestamp r)"
  let ?q = "filter ?P (habit_logs s)"
  have pq: "?P r \<longleftrightarrow> habit_id r = hid \<and> take (length today) (timestamp r) = today" for r
    by (simp add: like_day_prefix[OF assms(1)])
  have srt: "sorted_wrt (<) (map log_id ?q)"
    using assms(2) by (simp add: rowid_order_def sorted_wrt_map sorted_wrt_filter)
  show ?thesis
  proof (intro conjI impI)
    assume "\<forall>r \<in> set (habit_logs s).
              \<not> (habit_id r = hid \<and> take (length today) (timestamp r) = today)"
    then have "?q = []" by (simp add: filter_empty_conv pq)
    then show "get_habit_status_today hid today s = (200, Status ''none'')"
      by (simp add: get_habit_status_today_def assms(4))
  next
    assume "\<exists>r \<in> set (habit_logs s).
              habit_id r = hid \<and> take (length today) (timestamp r) = today"
    then have "?q \<noteq> []" by (simp add: filter_empty_conv pq)
    then obtain row where sel: "order_by_timestamp_desc_limit_1 ?q = Some row"
      using latest_None_iff[of ?q] by (cases "order_by_timestamp_desc_limit_1 ?q") auto
    from latest_in_set[OF sel] have row: "row \<in> set (habit_logs s)" "?P row" by simp_all
    have res: "get_habit_status_today hid today s = (200, Status (event_type row))"
      by (simp add: get_habit_status_today_def sel assms(4))
    have mx: "timestamp r \<le> timestamp row \<and>
              (timestamp r = timestamp row \<longrightarrow> log_id row \<le> log_id r)"
      if "r \<in> set (habit_logs s)" "habit_id r = hid \<and> take (length today) (timestamp r) = today"
      for r
    proof -
      from that have "r \<in> set ?q" by (simp add: pq)
      with latest_is_max[OF sel] latest_first_by_rowid[OF srt sel] show ?thesis by blast
    qed
    from row res mx show "\<exists>row \<in> set (habit_logs s).
             habit_id row = hid \<and> take (length today) (timestamp row) = today \<and>
             get_habit_status_today hid today s = (200, Status (event_type row)) \<and>
             (\<forall>r \<in> set (habit_logs s).
                habit_id r = hid \<and> take (length today) (timestamp r) = today \<longrightarrow>
                timestamp r \<le> timestamp row \<and>
                (timestamp r = timestamp row \<longrightarrow> log_id row \<le> log_id r))"
      unfolding pq by blast
  qed
qed

theorem latest_status_witness:
  "rowid_order tie_state \<and>
   map (\<lambda>r. (log_id r, event_type r, timestamp r))
     (filter (\<lambda>r. habit_id r = 1) (habit_logs tie_state)) =
     [(1, ''complete'', ''2024-01-05T10:00:00''), (2, ''skip'', ''2024-01-05T10:00:00'')] \<and>
   get_habit_status_today 1 ''2024-01-05'' tie_state = (200, Status ''complete'') \<and>
   get_habit_status_today 2 ''2024-01-04'' busy_state = (200, Status ''none'')"
proof -
  let ?r1 = "\<lparr>log_id = 1, user_uuid = ''u1'', habit_id = 1, event_type = ''complete'',
              timestamp = ''2024-01-05T10:00:00'', source = ''app''\<rparr>"
  let ?r2 = "\<lparr>log_id = 2, user_uuid = ''u1'', habit_id = 1, event_type = ''skip'',
              timestamp = ''2024-01-05T10:00:00'', source = ''app''\<rparr>"
  have d: "set ''2024-01-05'' \<subseteq> set ''0123456789-''" "set ''2024-01-04'' \<subseteq> set ''0123456789-''"
    by simp_all
  have o: "rowid_order busy_state" "rowid_order tie_state"
    by (simp_all add: rowid_order_def busy_state_def tie_state_def)
  have p: "(0::int) \<le> 1" "(0::int) \<le> 2" by simp_all
  have b: "sqlite_int64 1" "sqlite_int64 2" by (simp_all add: sqlite_int64_def)
  have n: "\<forall>r \<in> set (habit_logs busy_state).
            \<not> (habit_id r = 2 \<and> take (length ''2024-01-04'') (timestamp r) = ''2024-01-04'')"
    by (simp add: busy_state_def)
  from latest_status[OF d(2) o(1) p(2) b(2)] n
  have a: "get_habit_status_today 2 ''2024-01-04'' busy_state = (200, Status ''none'')"
    by blast
  have l: "habit_logs tie_state = [?r1, ?r2]"
    by (simp add: tie_state_def)
  have m: "?r1 \<in> set (habit_logs tie_state)"
    "habit_id ?r1 = 1 \<and> take (length ''2024-01-05'') (timestamp ?r1) = ''2024-01-05''"
    by (simp_all add: l)
  from latest_status[OF d(1) o(2) p(1) b(1)] m obtain row where
    row: "row \<in> set (habit_logs tie_state)"
      "get_habit_status_today 1 ''2024-01-05'' tie_state = (200, Status (event_type row))"
      "\<forall>r \<in> set (habit_logs tie_state).
         habit_id r = 1 \<and> take (length ''2024-01-05'') (timestamp r) = ''2024-01-05'' \<longrightarrow>
         timestamp r \<le> timestamp row \<and> (timestamp r = timestamp row \<longrightarrow> log_id row \<le> log_id r)"
    by blast
  from row(1) have "row = ?r1 \<or> row = ?r2" by (simp add: l)
  moreover from row(3) m have "timestamp ?r1 = timestamp row \<longrightarrow> log_id row \<le> log_id ?r1"
    by blast
  ultimately have "row = ?r1" by auto
  with row(2) have c: "get_habit_status_today 1 ''2024-01-05'' tie_state = (200, Status ''complete'')"
    by simp
  have w: "map (\<lambda>r. (log_id r, event_type r, timestamp r))
     (filter (\<lambda>r. habit_id r = 1) (habit_logs tie_state)) =
     [(1, ''complete'', ''2024-01-05T10:00:00''), (2, ''skip'', ''2024-01-05T10:00:00'')]"
    by (simp add: l)
  show ?thesis
    by (intro conjI o(2) w c a)
qed

section \<open>Record, then undo\<close>

lemma latest_snoc_newer:
  "\<forall>x \<in> set xs. timestamp x < timestamp r \<Longrightarrow>
   order_by_timestamp_desc_limit_1 (xs @ [r]) = Some r"
  by (induction xs) auto

text \<open>
  C9, as the code has it, in three states.  \<^verbatim>\<open>undo_last_event\<close> replies with a status
  only, and nothing in the code deletes a row of \<^verbatim>\<open>daily_agg\<close>: in the empty database,
  recording a \<^verbatim>\<open>complete\<close> for habit 1 and undoing it within the window answers
  \<^verbatim>\<open>undone\<close> and leaves the bucket that the record created, with zero counts, where
  there was no row.  In a state that holds a \<^verbatim>\<open>skip\<close> row of habit 1 with the very
  timestamp of the new event, the undo deletes that older row, not the one just recorded,
  and lowers \<^verbatim>\<open>skips\<close>.  In a state whose \<^verbatim>\<open>completions\<close> column holds \<open>-1\<close>, the record
  raises it to 0 and the undo leaves it at 0.
\<close>

theorem record_then_undo_counterexample:
  "fst (undo_last_event (Some 1) ''2024-01-05T09:59:01''
         (snd (log_event (request 1 ''complete'') ''2024-01-05T10:00:00'' ''u1'' empty_state))) =
     (200, Status ''undone'') \<and>
   daily_agg empty_state (1, ''2024-01-05'') = None \<and>
   daily_agg
     (snd (undo_last_event (Some 1) ''2024-01-05T09:59:01''
        (snd (log_event (request 1 ''complete'') ''2024-01-05T10:00:00'' ''u1'' empty_state))))
     (1, ''2024-01-05'') = Some \<lparr>completions = 0, skips = 0\<rparr> \<and>
   daily_agg
     (snd (undo_last_event (Some 1) ''2024-01-05T09:59:01''
        (snd (log_event (request 1 ''complete'') ''2024-01-05T10:00:00'' ''u1'' empty_state)))) \<noteq>
   daily_agg empty_state \<and>
   map (\<lambda>r. (log_id r, event_type r, timestamp r)) (habit_logs skipped_state) =
     [(1, ''skip'', ''2024-01-05T10:00:00'')] \<and>
   daily_agg skipped_state (1, ''2024-01-05'') = Some \<lparr>completions = 0, skips = 1\<rparr> \<and>
   map (\<lambda>r. (log_id r, event_type r, timestamp r))
     (habit_logs
        (snd (undo_last_event (Some 1) ''2024-01-05T09:59:01''
           (snd (log_event (request 1 ''complete'') ''2024-01-05T10:00:00'' ''u1''
              skipped_state))))) =
     [(2, ''complete'', ''2024-01-05T10:00:00'')] \<and>
   daily_agg
     (snd (undo_last_event (Some 1) ''2024-01-05T09:59:01''
        (snd (log_event (request 1 ''complete'') ''2024-01-05T10:00:00'' ''u1'' skipped_state))))
     (1, ''2024-01-05'') = Some \<lparr>completions = 1, skips = 0\<rparr> \<and>
   daily_agg negative_state (1, ''2024-01-05'') = Some \<lparr>completions = - 1, skips = 0\<rparr> \<and>
   daily_agg
     (snd (undo_last_event (Some 1) ''2024-01-05T09:59:01''
        (snd (log_event (request 1 ''complete'') ''2024-01-05T10:00:00'' ''u1'' negative_state))))
     (1, ''2024-01-05'') = Some \<lparr>completions = 0, skips = 0\<rparr>"
proof -
  have a: "daily_agg
     (snd (undo_last_event (Some 1) ''2024-01-05T09:59:01''
        (snd (log_event (request 1 ''complete'') ''2024-01-05T10:00:00'' ''u1'' empty_state)))) =
     [(1, ''2024-01-05'') \<mapsto> \<lparr>completions = 0, skips = 0\<rparr>]"
    by (simp add: exec_simps)
  have r: "fst (undo_last_event (Some 1) ''2024-01-05T09:59:01''
         (snd (log_event (request 1 ''complete'') ''2024-01-05T10:00:00'' ''u1'' empty_state))) =
     (200, Status ''undone'')"
    by (simp add: exec_simps)
  have e: "daily_agg empty_state = Map.empty"
    by (simp add: empty_state_def)
  have f: "fst (undo_last_event (Some 1) ''2024-01-05T09:59:01''
         (snd (log_event (request 1 ''complete'') ''2024-01-05T10:00:00'' ''u1'' empty_state))) =
     (200, Status ''undone'') \<and>
   daily_agg empty_state (1, ''2024-01-05'') = None \<and>
   daily_agg
     (snd (undo_last_event (Some 1) ''2024-01-05T09:59:01''
        (snd (log_event (request 1 ''complete'') ''2024-01-05T10:00:00'' ''u1'' empty_state))))
     (1, ''2024-01-05'') = Some \<lparr>completions = 0, skips = 0\<rparr> \<and>
   daily_agg
     (snd (undo_last_event (Some 1) ''2024-01-05T09:59:01''
        (snd (log_event (request 1 ''complete'') ''2024-01-05T10:00:00'' ''u1'' empty_state)))) \<noteq>
   daily_agg empty_state"
    unfolding a e r by simp
  have t: "map (\<lambda>r. (log_id r, event_type r, timestamp r)) (habit_logs skipped_state) =
     [(1, ''skip'', ''2024-01-05T10:00:00'')]"
    "daily_agg skipped_state (1, ''2024-01-05'') = Some \<lparr>completions = 0, skips = 1\<rparr>"
    "map (\<lambda>r. (log_id r, event_type r, timestamp r))
     (habit_logs
        (snd (undo_last_event (Some 1) ''2024-01-05T09:59:01''
           (snd (log_event (request 1 ''complete'') ''2024-01-05T10:00:00'' ''u1''
              skipped_state))))) =
     [(2, ''complete'', ''2024-01-05T10:00:00'')]"
    "daily_agg
     (snd (undo_last_event (Some 1) ''2024-01-05T09:59:01''
        (snd (log_event (request 1 ''complete'') ''2024-01-05T10:00:00'' ''u1'' skipped_state))))
     (1, ''2024-01-05'') = Some \<lparr>completions = 1, skips = 0\<rparr>"
    by (simp_all add: skipped_state_def exec_simps)
  have n: "daily_agg negative_state (1, ''2024-01-05'') = Some \<lparr>completions = - 1, skips = 0\<rparr>"
    "daily_agg
     (snd (undo_last_event (Some 1) ''2024-01-05T09:59:01''
        (snd (log_event (request 1 ''complete'') ''2024-01-05T10:00:00'' ''u1'' negative_state))))
     (1, ''2024-01-05'') = Some \<lparr>completions = 0, skips = 0\<rparr>"
    by (simp_all add: negative_state_def exec_simps)
  note f1 = f[THEN conjunct1] and f2 = f[THEN conjunct2, THEN conjunct1]
    and f3 = f[THEN conjunct2, THEN conjunct2, THEN conjunct1]
    and f4 = f[THEN conjunct2, THEN conjunct2, THEN conjunct2]
  show ?thesis
    by (intro conjI f1 f2 f3 f4 t n)
qed

text \<open>
  C9, amended.  Take a habit identifier that fits 64 bits and a state in which every
  row of the habit is older than the new timestamp and the \<^verbatim>\<open>completions\<close> counter of
  the habit and day is not negative.
  Recording a \<^verbatim>\<open>complete\<close> and then undoing with a cutoff at or before the new timestamp
  (an undo within the window) answers 200 \<^verbatim>\<open>undone\<close>, leaves \<^verbatim>\<open>habit_logs\<close> as it was
  before the record (the row deleted is the row just inserted), and leaves every
  counter of \<^verbatim>\<open>daily_agg\<close> reading what it read before the record; the bucket row of the
  habit and day is present afterwards, holding zeros if the record created it.
\<close>

theorem record_then_undo:
  assumes "hid \<noteq> 0" and "sqlite_int64 hid"
    and "req_habit_id data = Some hid" and "req_event_type data = Some ''complete''"
    and "cutoff \<le> ts"
    and "\<forall>r \<in> set (habit_logs s). habit_id r = hid \<longrightarrow> timestamp r < ts"
    and "0 \<le> counter completions hid (day_of ts) s"
  shows "fst (undo_last_event (Some hid) cutoff (snd (log_event data ts u s))) =
           (200, Status ''undone'') \<and>
         habit_logs (snd (undo_last_event (Some hid) cutoff (snd (log_event data ts u s)))) =
           habit_logs s \<and>
         daily_agg (snd (undo_last_event (Some hid) cutoff (snd (log_event data ts u s)))) =
           (daily_agg s)((hid, day_of ts) \<mapsto> bucket_or_zero s hid (day_of ts)) \<and>
         (\<forall>h d. counter completions h d
                  (snd (undo_last_event (Some hid) cutoff (snd (log_event data ts u s)))) =
                counter completions h d s \<and>
                counter skips h d
                  (snd (undo_last_event (Some hid) cutoff (snd (log_event data ts u s)))) =
                counter skips h d s)"
proof -
  let ?s1 = "snd (log_event data ts u s)"
  let ?new = "\<lparr>log_id = next_rowid s,
             user_uuid = (case req_user_uuid data of None \<Rightarrow> u | Some x \<Rightarrow> if x = [] then u else x),
             habit_id = hid, event_type = ''complete'', timestamp = ts,
             source = (case req_source data of None \<Rightarrow> ''unknown'' | Some x \<Rightarrow> x)\<rparr>"
  have ne: "''complete'' \<noteq> []" by simp
  note v = assms(3,4,1) ne assms(2)
  have l1: "habit_logs ?s1 = habit_logs s @ [?new]"
    by (rule log_event_logs[OF v])
  have a1: "daily_agg ?s1 =
      (daily_agg s)((hid, day_of ts) \<mapsto>
         (bucket_or_zero s hid (day_of ts))
           \<lparr>completions := completions (bucket_or_zero s hid (day_of ts)) + 1\<rparr>)"
    by (simp add: log_event_agg[OF v])
  have old: "\<forall>x \<in> set (filter (\<lambda>r. habit_id r = hid \<and> cutoff \<le> timestamp r) (habit_logs s)).
               timestamp x < timestamp ?new"
    using assms(6) by simp
  have sel: "order_by_timestamp_desc_limit_1
               (filter (\<lambda>r. habit_id r = hid \<and> cutoff \<le> timestamp r) (habit_logs ?s1)) = Some ?new"
    using latest_snoc_newer[OF old] assms(5) by (simp add: l1)
  have fresh: "filter (\<lambda>r. log_id r \<noteq> next_rowid s) (habit_logs s) = habit_logs s"
    using next_rowid_fresh[of _ s] by (fastforce simp: filter_id_conv)
  have bz: "0 \<le> completions (bucket_or_zero s hid (day_of ts))"
    using assms(7) by (simp add: counter_def bucket_or_zero_def split: option.splits)
  note u = undo_found[OF assms(1,2) sel]
  have r: "fst (undo_last_event (Some hid) cutoff ?s1) = (200, Status ''undone'')"
    by (simp add: u)
  have l2: "habit_logs (snd (undo_last_event (Some hid) cutoff ?s1)) = habit_logs s"
    by (simp add: u l1 fresh)
  have a2: "daily_agg (snd (undo_last_event (Some hid) cutoff ?s1)) =
           (daily_agg s)((hid, day_of ts) \<mapsto> bucket_or_zero s hid (day_of ts))"
    using bz by (simp add: u a1 dec_floor_def)
  have c: "\<forall>h d. counter completions h d (snd (undo_last_event (Some hid) cutoff ?s1)) =
                counter completions h d s \<and>
                counter skips h d (snd (undo_last_event (Some hid) cutoff ?s1)) =
                counter skips h d s"
    by (simp add: counter_def a2 bucket_or_zero_def split: option.splits)
  from r l2 a2 c show ?thesis by blast
qed

theorem record_then_undo_witness:
  "daily_agg
     (snd (undo_last_event (Some 1) ''2024-01-05T10:00:35''
        (snd (log_event (request 1 ''complete'') ''2024-01-05T10:01:34.500000'' ''u2''
           drifted_state)))) = daily_agg drifted_state \<and>
   habit_logs
     (snd (undo_last_event (Some 1) ''2024-01-05T10:00:35''
        (snd (log_event (request 1 ''complete'') ''2024-01-05T10:01:34.500000'' ''u2''
           drifted_state)))) = habit_logs drifted_state"
proof -
  have h: "(1::int) \<noteq> 0" by simp
  have i: "sqlite_int64 1" by (simp add: sqlite_int64_def)
  have r: "req_habit_id (request 1 ''complete'') = Some 1"
    "req_event_type (request 1 ''complete'') = Some ''complete''"
    by (simp_all add: request_def)
  have c: "''2024-01-05T10:00:35'' \<le> ''2024-01-05T10:01:34.500000''" by simp
  have o: "\<forall>r \<in> set (habit_logs drifted_state).
             habit_id r = 1 \<longrightarrow> timestamp r < ''2024-01-05T10:01:34.500000''"
    by (simp add: drifted_state_def)
  have n: "0 \<le> counter completions 1 (day_of ''2024-01-05T10:01:34.500000'') drifted_state"
    by (simp add: counter_def drifted_state_def day_of_def)
  have b: "(daily_agg drifted_state)((1, day_of ''2024-01-05T10:01:34.500000'') \<mapsto>
             bucket_or_zero drifted_state 1 (day_of ''2024-01-05T10:01:34.500000'')) =
           daily_agg drifted_state"
    by (simp add: drifted_state_def day_of_def bucket_or_zero_def)
  from record_then_undo[OF h i r c o n, of "''u2''"] b show ?thesis
    by simp
qed



end
